theory Spec2Isabelle
  imports Main
begin

section \<open>Strings: the functions of Go's \<open>strings\<close> and \<open>path\<close> packages the backend calls\<close>

text \<open>
  A Go string is a sequence of bytes; it is modelled as \<^typ>\<open>string\<close>, a list of
  8-bit characters. The functions below follow the Go standard library, which the
  backend imports (\<open>strings.HasPrefix\<close>, \<open>strings.Contains\<close>, \<open>strings.TrimPrefix\<close>,
  \<open>strings.ReplaceAll\<close>, \<open>path.Clean\<close>).
\<close>

fun HasPrefix :: "string \<Rightarrow> string \<Rightarrow> bool" where
  "HasPrefix s [] = True"
| "HasPrefix [] (p # ps) = False"
| "HasPrefix (c # cs) (p # ps) = (c = p \<and> HasPrefix cs ps)"

fun Contains :: "string \<Rightarrow> string \<Rightarrow> bool" where
  "Contains [] substr = (substr = [])"
| "Contains (c # cs) substr = (HasPrefix (c # cs) substr \<or> Contains cs substr)"

definition TrimPrefix :: "string \<Rightarrow> string \<Rightarrow> string" where
  "TrimPrefix s p = (if HasPrefix s p then drop (length p) s else s)"

text \<open>
  \<open>strings.ReplaceAll(s, old, new)\<close> replaces the non-overlapping occurrences of
  \<open>old\<close>, found from left to right. The backend calls it with the non-empty literals
  \<open>"{path}"\<close> and \<open>"Update"\<close> only; Go's special case of an empty \<open>old\<close> (an insertion
  at every rune boundary) is outside this model, which leaves \<open>s\<close> unchanged there.
\<close>

function ReplaceAll :: "string \<Rightarrow> string \<Rightarrow> string \<Rightarrow> string" where
  "ReplaceAll [] old new = []"
| "ReplaceAll (c # cs) old new =
     (if old \<noteq> [] \<and> HasPrefix (c # cs) old
      then new @ ReplaceAll (drop (length old) (c # cs)) old new
      else c # ReplaceAll cs old new)"
  by pat_completeness auto
termination
  by (relation "measure (\<lambda>(s, old, new). length s)") (auto simp: neq_Nil_conv)

subsection \<open>\<open>path.Clean\<close>\<close>

text \<open>
  \<open>path.Clean\<close> reads the path byte by byte (index \<open>r\<close>) and writes into a buffer
  (\<open>out\<close>, of length \<open>out.w\<close>); \<open>dotdot\<close> is the length of the buffer's prefix that a
  \<open>..\<close> element may not remove. The model keeps the unread rest of the path, the
  buffer and \<open>dotdot\<close>.

  \<open>backtrack\<close> is the inner loop of the \<open>..\<close> case:
  \<^verbatim>\<open>out.w--; for out.w > dotdot && out.index(out.w) != '/' { out.w-- }\<close>
  with \<open>backtrack_loop\<close> the \<open>for\<close> loop: the buffer is cut at \<open>w\<close>, and the byte at index
  \<open>w\<close> is the last byte of \<open>take (w + 1) out\<close>.
\<close>

fun backtrack_loop :: "string \<Rightarrow> nat \<Rightarrow> nat \<Rightarrow> nat" where
  "backtrack_loop out dotdot 0 = 0"
| "backtrack_loop out dotdot (Suc w) =
     (if Suc w > dotdot \<and> out ! (Suc w) \<noteq> CHR ''/''
      then backtrack_loop out dotdot w else Suc w)"

definition backtrack :: "string \<Rightarrow> nat \<Rightarrow> string" where
  "backtrack out dotdot = take (backtrack_loop out dotdot (length out - 1)) out"

text \<open>The three-way \<open>switch\<close> on the unread rest of the path.\<close>

definition is_dot_elem :: "string \<Rightarrow> bool" where
  "is_dot_elem rest =
     (case rest of
        c # rs \<Rightarrow> c = CHR ''.'' \<and> (case rs of [] \<Rightarrow> True | d # _ \<Rightarrow> d = CHR ''/'')
      | [] \<Rightarrow> False)"

definition is_dotdot_elem :: "string \<Rightarrow> bool" where
  "is_dotdot_elem rest =
     (case rest of
        c # d # rs \<Rightarrow>
          c = CHR ''.'' \<and> d = CHR ''.'' \<and> (case rs of [] \<Rightarrow> True | e # _ \<Rightarrow> e = CHR ''/'')
      | _ \<Rightarrow> False)"

function clean_loop :: "bool \<Rightarrow> string \<Rightarrow> string \<Rightarrow> nat \<Rightarrow> string" where
  "clean_loop rooted [] out dotdot = out"
| "clean_loop rooted (c # rs) out dotdot =
     (if c = CHR ''/'' then clean_loop rooted rs out dotdot
      else if is_dot_elem (c # rs) then clean_loop rooted rs out dotdot
      else if is_dotdot_elem (c # rs) then
        (if length out > dotdot then clean_loop rooted (tl rs) (backtrack out dotdot) dotdot
         else if \<not> rooted then
           (let out' = (if length out > 0 then out @ ''/'' else out) @ ''..''
            in clean_loop rooted (tl rs) out' (length out'))
         else clean_loop rooted (tl rs) out dotdot)
      else
        (let out' = (if rooted \<and> length out \<noteq> 1 \<or> \<not> rooted \<and> length out \<noteq> 0
                     then out @ ''/'' else out)
         in clean_loop rooted (dropWhile (\<lambda>x. x \<noteq> CHR ''/'') (c # rs))
              (out' @ takeWhile (\<lambda>x. x \<noteq> CHR ''/'') (c # rs)) dotdot))"
  by pat_completeness auto
termination
proof (relation "measure (\<lambda>(rooted, rest, out, dotdot). length rest)", goal_cases)
  case 1
  show ?case by simp
next
  case (2 rooted c rs out dotdot)
  show ?case by simp
next
  case (3 rooted c rs out dotdot)
  show ?case by simp
next
  case (4 rooted c rs out dotdot)
  show ?case by (simp add: less_Suc_eq_le)
next
  case (5 rooted c rs out dotdot)
  show ?case by (simp add: less_Suc_eq_le)
next
  case (6 rooted c rs out dotdot)
  show ?case by (simp add: less_Suc_eq_le)
next
  case (7 rooted c rs out dotdot x)
  then show ?case
    by (simp add: less_Suc_eq_le length_dropWhile_le)
qed

definition Clean :: "string \<Rightarrow> string" where
  "Clean path =
     (if path = [] then ''.''
      else
        (let rooted = (hd path = CHR ''/'');
             out = (if rooted then clean_loop rooted (tl path) ''/'' 1
                    else clean_loop rooted path [] 0)
         in if length out = 0 then ''.'' else out))"

section \<open>Path validation and normalisation (\<open>backend.go\<close>)\<close>

datatype ctx_error = Canceled | DeadlineExceeded

text \<open>
  What the client library hands back as \<open>err\<close>: a \<open>*github.ErrorResponse\<close>, whose
  \<open>Response\<close> field is nil or carries a status code, or any other error value (a
  transport failure, for instance).
\<close>

datatype response = Response (StatusCode: int)

datatype api_error = ErrorResponse "response option" | OtherError string

text \<open>
  The errors the backend returns: the sentinel values of \<open>omnistorage\<close>, the error of the
  context, and the errors built with \<open>fmt.Errorf\<close>.
\<close>

datatype error =
    ErrInvalidPath
  | ErrNotFound
  | ErrPermissionDenied
  | ErrBackendClosed
  | ErrNotSupported
  | ErrWriterClosed
  | ContextError ctx_error
  | Wrapped api_error
  | BatchAlreadyCommitted
  | CannotDeleteDirectory string
  | PathIsDirectory string
  | DecodingContent string

definition validatePath :: "string \<Rightarrow> error option" where
  "validatePath p =
     (if p = [] then None
      else if Contains p ''..'' then Some ErrInvalidPath
      else None)"

definition normalizePath :: "string \<Rightarrow> string" where
  "normalizePath p =
     (if p = [] then []
      else
        (let p1 = Clean p;
             p2 = TrimPrefix p1 ''/''
         in if p2 = ''.'' then [] else p2))"

section \<open>Configuration\<close>

record commit_author =
  Name :: string
  Email :: string

record Config =
  Owner :: string
  Repo :: string
  Branch :: string
  Token :: string
  BaseURL :: string
  UploadURL :: string
  CommitMessage :: string
  CommitAuthor :: "commit_author option"

definition FormatCommitMessage :: "Config \<Rightarrow> string \<Rightarrow> string" where
  "FormatCommitMessage c filePath =
     (let msg = (if CommitMessage c = [] then ''Update {path} via omnistorage''
                 else CommitMessage c)
      in ReplaceAll msg ''{path}'' filePath)"

section \<open>The remote store as the backend sees it\<close>

text \<open>
  The values of the client library (\<open>go-github\<close>) the backend reads and writes. A getter of
  the library (\<open>GetSHA\<close>, \<open>GetType\<close>, \<open>GetPath\<close>, \<open>GetSize\<close>) returns the zero value for a nil
  field, so the fields read through getters are plain values here; the \<open>SHA\<close> of a tree
  entry and of a blob is read as a pointer and stays optional.
\<close>

record repository_content =
  rc_Type :: string
  rc_SHA :: string
  rc_Size :: int
  rc_Content :: "string + string"  \<comment> \<open>\<open>GetContent()\<close>: a decoding error (\<open>Inl\<close>) or the content\<close>

record contents_reply =
  fileContent :: "repository_content option"
  directoryContent :: "repository_content list option"
  c_resp :: "response option"
  c_err :: "api_error option"

record file_options =
  opt_Message :: string
  opt_Content :: string
  opt_Branch :: string
  opt_SHA :: "string option"
  opt_Author :: "commit_author option"

record tree_entry =
  te_Path :: string
  te_Mode :: string
  te_Type :: string
  te_SHA :: "string option"

record reference =
  ref_Name :: string
  ref_ObjectSHA :: string

record git_commit =
  gc_Message :: string
  gc_Tree :: string
  gc_Parents :: "string list"
  gc_Author :: "commit_author option"

text \<open>
  The network calls, as the backend issues them. Every call also carries the owner and the
  repository name of the configuration, which never change; they are left out.
\<close>

datatype call =
    GetContentsCall string string
  | CreateFileCall string file_options
  | DeleteFileCall string file_options
  | GetTreeCall string bool
  | GetRefCall string
  | GetCommitCall string
  | CreateBlobCall string string
  | CreateTreeCall string "tree_entry list"
  | CreateCommitCall git_commit
  | UpdateRefCall reference bool

text \<open>
  The client: what the remote store answers to each call, a function of the request. The
  theorems hold for every client, so for every way the remote store may answer or fail.
\<close>

record client =
  GetContents :: "string \<Rightarrow> string \<Rightarrow> contents_reply"
  CreateFile :: "string \<Rightarrow> file_options \<Rightarrow> response option \<times> api_error option"
  DeleteFile :: "string \<Rightarrow> file_options \<Rightarrow> response option \<times> api_error option"
  GetTree :: "string \<Rightarrow> bool \<Rightarrow> tree_entry list \<times> response option \<times> api_error option"
  GetRef :: "string \<Rightarrow> reference \<times> response option \<times> api_error option"
  GetCommit :: "string \<Rightarrow> string \<times> response option \<times> api_error option"
  CreateBlob :: "string \<Rightarrow> string \<Rightarrow> string option \<times> response option \<times> api_error option"
  CreateTree :: "string \<Rightarrow> tree_entry list \<Rightarrow> string \<times> response option \<times> api_error option"
  CreateCommit :: "git_commit \<Rightarrow> string \<times> response option \<times> api_error option"
  UpdateRef :: "reference \<Rightarrow> bool \<Rightarrow> response option \<times> api_error option"

text \<open>
  A \<open>context.Context\<close> is read through \<open>ctx.Err()\<close> only. It is modelled by the answers
  to the successive polls of one operation: the head of the list answers the next poll, and
  an exhausted list answers nil.
\<close>

type_synonym "context" = "ctx_error option list"

definition ctx_Err :: "context \<Rightarrow> ctx_error option" where
  "ctx_Err ctx = (case ctx of [] \<Rightarrow> None | e # _ \<Rightarrow> e)"

definition ctx_rest :: "context \<Rightarrow> context" where
  "ctx_rest ctx = tl ctx"

section \<open>The backend (\<open>backend.go\<close>)\<close>

record Backend =
  config :: Config
  closed :: bool

definition checkClosed :: "Backend \<Rightarrow> error option" where
  "checkClosed b = (if closed b then Some ErrBackendClosed else None)"

definition Close :: "Backend \<Rightarrow> error option \<times> Backend" where
  "Close b = (None, b\<lparr>closed := True\<rparr>)"

text \<open>The \<open>switch\<close> of \<open>translateError\<close> on a status code.\<close>

definition status_error :: "int \<Rightarrow> error option" where
  "status_error code =
     (if code = 404 then Some ErrNotFound
      else if code = 403 \<or> code = 401 then Some ErrPermissionDenied
      else None)"

definition translateError :: "api_error option \<Rightarrow> response option \<Rightarrow> error option" where
  "translateError err resp =
     (case err of
        None \<Rightarrow> None
      | Some e \<Rightarrow>
          (case (case resp of None \<Rightarrow> None | Some r \<Rightarrow> status_error (StatusCode r)) of
             Some x \<Rightarrow> Some x
           | None \<Rightarrow>
               (case (case e of
                        ErrorResponse (Some r) \<Rightarrow> status_error (StatusCode r)
                      | _ \<Rightarrow> None) of
                  Some x \<Rightarrow> Some x
                | None \<Rightarrow> Some (Wrapped e))))"

text \<open>
  The two tests for a 404 that \<open>Exists\<close> and \<open>Delete\<close> make on a failed lookup:
  \<open>resp != nil && resp.StatusCode == 404\<close>, and the error being a \<open>*github.ErrorResponse\<close>
  whose \<open>Response\<close> is not nil and has status 404.
\<close>

definition resp_is_404 :: "response option \<Rightarrow> bool" where
  "resp_is_404 resp = (case resp of None \<Rightarrow> False | Some r \<Rightarrow> StatusCode r = 404)"

definition err_is_404 :: "api_error option \<Rightarrow> bool" where
  "err_is_404 err =
     (case err of
        Some (ErrorResponse (Some r)) \<Rightarrow> StatusCode r = 404
      | _ \<Rightarrow> False)"

subsection \<open>\<open>Exists\<close>\<close>

definition Exists :: "client \<Rightarrow> Backend \<Rightarrow> context \<Rightarrow> string \<Rightarrow> (bool \<times> error option) \<times> call list" where
  "Exists cl b ctx filePath =
     (case checkClosed b of
        Some e \<Rightarrow> ((False, Some e), [])
      | None \<Rightarrow>
     (case ctx_Err ctx of
        Some e \<Rightarrow> ((False, Some (ContextError e)), [])
      | None \<Rightarrow>
     (case validatePath filePath of
        Some e \<Rightarrow> ((False, Some e), [])
      | None \<Rightarrow>
        (let normalPath = normalizePath filePath;
             r = GetContents cl normalPath (Branch (config b));
             calls = [GetContentsCall normalPath (Branch (config b))]
         in if c_err r \<noteq> None then
              (if resp_is_404 (c_resp r) then ((False, None), calls)
               else if err_is_404 (c_err r) then ((False, None), calls)
               else ((False, translateError (c_err r) (c_resp r)), calls))
            else ((True, None), calls)))))"

subsection \<open>\<open>Delete\<close>\<close>

definition delete_message :: "Config \<Rightarrow> string \<Rightarrow> string" where
  "delete_message c normalPath =
     (if CommitMessage c \<noteq> []
      then ReplaceAll (ReplaceAll (CommitMessage c) ''{path}'' normalPath) ''Update'' ''Delete''
      else ''Delete '' @ normalPath @ '' via omnistorage'')"

definition Delete :: "client \<Rightarrow> Backend \<Rightarrow> context \<Rightarrow> string \<Rightarrow> error option \<times> call list" where
  "Delete cl b ctx filePath =
     (case checkClosed b of
        Some e \<Rightarrow> (Some e, [])
      | None \<Rightarrow>
     (case ctx_Err ctx of
        Some e \<Rightarrow> (Some (ContextError e), [])
      | None \<Rightarrow>
     (case validatePath filePath of
        Some e \<Rightarrow> (Some e, [])
      | None \<Rightarrow>
        if filePath = [] then (Some ErrInvalidPath, [])
        else
          (let normalPath = normalizePath filePath;
               r = GetContents cl normalPath (Branch (config b));
               lookup = [GetContentsCall normalPath (Branch (config b))]
           in if c_err r \<noteq> None then
                (if resp_is_404 (c_resp r) then (None, lookup)
                 else if err_is_404 (c_err r) then (None, lookup)
                 else (translateError (c_err r) (c_resp r), lookup))
              else
                (case fileContent r of
                   None \<Rightarrow> (Some (CannotDeleteDirectory filePath), lookup)
                 | Some f \<Rightarrow>
                     (let opts = \<lparr>opt_Message = delete_message (config b) normalPath,
                                  opt_Content = [],
                                  opt_Branch = Branch (config b),
                                  opt_SHA = Some (rc_SHA f),
                                  opt_Author = CommitAuthor (config b)\<rparr>;
                          calls = lookup @ [DeleteFileCall normalPath opts]
                      in case DeleteFile cl normalPath opts of
                           (resp, err) \<Rightarrow>
                             if err \<noteq> None then (translateError err resp, calls)
                             else (None, calls)))))))"

subsection \<open>\<open>List\<close>\<close>

text \<open>
  The loop over \<open>tree.Entries\<close>. Each iteration polls the context first; the source reads
  \<open>ctx.Err()\<close> a second time for the value it returns, and a context keeps answering the
  error it answered once, so the two reads are one poll here.
\<close>

fun list_loop :: "context \<Rightarrow> string \<Rightarrow> tree_entry list \<Rightarrow> string list \<Rightarrow> string list \<times> error option" where
  "list_loop ctx normalPrefix [] paths = (paths, None)"
| "list_loop ctx normalPrefix (entry # entries) paths =
     (case ctx_Err ctx of
        Some e \<Rightarrow> ([], Some (ContextError e))
      | None \<Rightarrow>
          if te_Type entry \<noteq> ''blob'' then list_loop (ctx_rest ctx) normalPrefix entries paths
          else if normalPrefix \<noteq> [] \<and>
                  \<not> HasPrefix (te_Path entry) normalPrefix \<and>
                  \<not> HasPrefix (te_Path entry) (normalPrefix @ ''/'')
          then list_loop (ctx_rest ctx) normalPrefix entries paths
          else list_loop (ctx_rest ctx) normalPrefix entries (paths @ [te_Path entry]))"

definition List :: "client \<Rightarrow> Backend \<Rightarrow> context \<Rightarrow> string \<Rightarrow> (string list \<times> error option) \<times> call list" where
  "List cl b ctx prefix =
     (case checkClosed b of
        Some e \<Rightarrow> (([], Some e), [])
      | None \<Rightarrow>
     (case ctx_Err ctx of
        Some e \<Rightarrow> (([], Some (ContextError e)), [])
      | None \<Rightarrow>
        (let normalPrefix = normalizePath prefix;
             calls = [GetTreeCall (Branch (config b)) True]
         in case GetTree cl (Branch (config b)) True of
              (entries, resp, err) \<Rightarrow>
                if err \<noteq> None then (([], translateError err resp), calls)
                else (list_loop (ctx_rest ctx) normalPrefix entries [], calls))))"

subsection \<open>\<open>Stat\<close>\<close>

record object_info =
  ObjectPath :: string
  ObjectSize :: int
  ObjectIsDir :: bool
  ObjectHashSHA1 :: "string option"

definition Stat :: "client \<Rightarrow> Backend \<Rightarrow> context \<Rightarrow> string \<Rightarrow> (object_info option \<times> error option) \<times> call list" where
  "Stat cl b ctx filePath =
     (case checkClosed b of
        Some e \<Rightarrow> ((None, Some e), [])
      | None \<Rightarrow>
     (case ctx_Err ctx of
        Some e \<Rightarrow> ((None, Some (ContextError e)), [])
      | None \<Rightarrow>
     (case validatePath filePath of
        Some e \<Rightarrow> ((None, Some e), [])
      | None \<Rightarrow>
        (let normalPath = normalizePath filePath;
             r = GetContents cl normalPath (Branch (config b));
             calls = [GetContentsCall normalPath (Branch (config b))]
         in if c_err r \<noteq> None then ((None, translateError (c_err r) (c_resp r)), calls)
            else if directoryContent r \<noteq> None then
              ((Some \<lparr>ObjectPath = normalPath, ObjectSize = 0, ObjectIsDir = True,
                      ObjectHashSHA1 = None\<rparr>, None), calls)
            else
              ((Some \<lparr>ObjectPath = normalPath,
                      ObjectSize = (case fileContent r of None \<Rightarrow> 0 | Some f \<Rightarrow> rc_Size f),
                      ObjectIsDir = False,
                      ObjectHashSHA1 =
                        Some (case fileContent r of None \<Rightarrow> [] | Some f \<Rightarrow> rc_SHA f)\<rparr>,
                None), calls)))))"

subsection \<open>\<open>NewReader\<close>\<close>

record reader_config =
  Offset :: int
  Limit :: int

definition read_window :: "reader_config \<Rightarrow> string \<Rightarrow> string" where
  "read_window cfg data =
     (let data1 = (if Offset cfg > 0
                   then (if Offset cfg \<ge> int (length data) then []
                         else drop (nat (Offset cfg)) data)
                   else data)
      in if Limit cfg > 0 \<and> int (length data1) > Limit cfg
         then take (nat (Limit cfg)) data1 else data1)"

definition NewReader :: "client \<Rightarrow> Backend \<Rightarrow> context \<Rightarrow> string \<Rightarrow> reader_config \<Rightarrow> (string option \<times> error option) \<times> call list" where
  "NewReader cl b ctx filePath cfg =
     (case checkClosed b of
        Some e \<Rightarrow> ((None, Some e), [])
      | None \<Rightarrow>
     (case ctx_Err ctx of
        Some e \<Rightarrow> ((None, Some (ContextError e)), [])
      | None \<Rightarrow>
     (case validatePath filePath of
        Some e \<Rightarrow> ((None, Some e), [])
      | None \<Rightarrow>
        (let normalPath = normalizePath filePath;
             r = GetContents cl normalPath (Branch (config b));
             calls = [GetContentsCall normalPath (Branch (config b))]
         in if c_err r \<noteq> None then ((None, translateError (c_err r) (c_resp r)), calls)
            else
              (case fileContent r of
                 None \<Rightarrow> ((None, Some (PathIsDirectory filePath)), calls)
               | Some f \<Rightarrow>
                   if rc_Type f \<noteq> ''file'' then ((None, Some (PathIsDirectory filePath)), calls)
                   else
                     (case rc_Content f of
                        Inl msg \<Rightarrow> ((None, Some (DecodingContent msg)), calls)
                      | Inr content \<Rightarrow> ((Some (read_window cfg content), None), calls)))))))"

subsection \<open>The writer: \<open>NewWriter\<close>, \<open>Write\<close>, \<open>Close\<close>\<close>

text \<open>
  A writer holds a pointer to its backend and its context; both are arguments of its
  operations here.
\<close>

record writer =
  w_filePath :: string
  w_buffer :: string
  w_closed :: bool

definition NewWriter :: "Backend \<Rightarrow> context \<Rightarrow> string \<Rightarrow> writer option \<times> error option" where
  "NewWriter b ctx path =
     (case checkClosed b of
        Some e \<Rightarrow> (None, Some e)
      | None \<Rightarrow>
     (case ctx_Err ctx of
        Some e \<Rightarrow> (None, Some (ContextError e))
      | None \<Rightarrow>
     (case validatePath path of
        Some e \<Rightarrow> (None, Some e)
      | None \<Rightarrow>
        if path = [] then (None, Some ErrInvalidPath)
        else (Some \<lparr>w_filePath = normalizePath path, w_buffer = [], w_closed = False\<rparr>, None))))"

definition writer_Write :: "writer \<Rightarrow> string \<Rightarrow> (nat \<times> error option) \<times> writer" where
  "writer_Write w p =
     (if w_closed w then ((0, Some ErrWriterClosed), w)
      else ((length p, None), w\<lparr>w_buffer := w_buffer w @ p\<rparr>))"

text \<open>
  The lookup of \<open>Close\<close> and what it decides: \<open>Inr sha\<close> goes on to the mutation with the
  version marker \<open>sha\<close> (or none), \<open>Inl e\<close> is the \<open>return\<close> inside the \<open>else if\<close>, with
  the value \<open>translateError\<close> gives, which is nil for a nil \<open>err\<close>. A type assertion
  \<open>err.(*github.ErrorResponse)\<close> on a nil \<open>err\<close> fails, which is the \<open>else\<close> branch.
\<close>

definition close_lookup :: "contents_reply \<Rightarrow> error option + string option" where
  "close_lookup r =
     (case (c_err r, fileContent r) of
        (None, Some f) \<Rightarrow> Inr (Some (rc_SHA f))
      | _ \<Rightarrow>
          if c_resp r \<noteq> None \<and> \<not> resp_is_404 (c_resp r) then
            (case c_err r of
               Some (ErrorResponse er) \<Rightarrow>
                 (if er = None \<or> \<not> resp_is_404 er
                  then Inl (translateError (c_err r) (c_resp r))
                  else Inr None)
             | _ \<Rightarrow> Inl (translateError (c_err r) (c_resp r)))
          else Inr None)"

definition writer_Close :: "client \<Rightarrow> Backend \<Rightarrow> context \<Rightarrow> writer \<Rightarrow> error option \<times> writer \<times> call list" where
  "writer_Close cl b ctx w =
     (if w_closed w then (None, w, [])
      else
        (let w' = w\<lparr>w_closed := True\<rparr> in
         case checkClosed b of
           Some e \<Rightarrow> (Some e, w', [])
         | None \<Rightarrow>
        (case ctx_Err ctx of
           Some e \<Rightarrow> (Some (ContextError e), w', [])
         | None \<Rightarrow>
           (let r = GetContents cl (w_filePath w) (Branch (config b));
                lookup = [GetContentsCall (w_filePath w) (Branch (config b))]
            in case close_lookup r of
                 Inl e \<Rightarrow> (e, w', lookup)
               | Inr existingSHA \<Rightarrow>
                   (let opts = \<lparr>opt_Message = FormatCommitMessage (config b) (w_filePath w),
                                opt_Content = w_buffer w,
                                opt_Branch = Branch (config b),
                                opt_SHA = existingSHA,
                                opt_Author = CommitAuthor (config b)\<rparr>;
                        calls = lookup @ [CreateFileCall (w_filePath w) opts]
                    in case CreateFile cl (w_filePath w) opts of
                         (resp, err) \<Rightarrow>
                           if err \<noteq> None then (translateError err resp, w', calls)
                           else (None, w', calls))))))"

section \<open>Batches\<close>

datatype BatchOperationType = BatchOpWrite | BatchOpDelete

record BatchOperation =
  op_Type :: BatchOperationType
  op_Path :: string
  op_Content :: string

text \<open>
  A batch holds a pointer to its backend and its context; both are arguments of its
  operations here.
\<close>

record Batch =
  message :: string
  operations :: "BatchOperation list"
  committed :: bool

definition NewBatch :: "Backend \<Rightarrow> context \<Rightarrow> string \<Rightarrow> Batch option \<times> error option" where
  "NewBatch b ctx msg =
     (case checkClosed b of
        Some e \<Rightarrow> (None, Some e)
      | None \<Rightarrow>
     (case ctx_Err ctx of
        Some e \<Rightarrow> (None, Some (ContextError e))
      | None \<Rightarrow>
        (Some \<lparr>message = (if msg = [] then ''Batch update via omnistorage'' else msg),
               operations = [], committed = False\<rparr>, None)))"

definition Batch_Write :: "Batch \<Rightarrow> string \<Rightarrow> string \<Rightarrow> error option \<times> Batch" where
  "Batch_Write batch path content =
     (if committed batch then (Some BatchAlreadyCommitted, batch)
      else case validatePath path of
        Some e \<Rightarrow> (Some e, batch)
      | None \<Rightarrow>
          if path = [] then (Some ErrInvalidPath, batch)
          else (None, batch\<lparr>operations := operations batch @
                  [\<lparr>op_Type = BatchOpWrite, op_Path = normalizePath path, op_Content = content\<rparr>]\<rparr>))"

definition Batch_Delete :: "Batch \<Rightarrow> string \<Rightarrow> error option \<times> Batch" where
  "Batch_Delete batch path =
     (if committed batch then (Some BatchAlreadyCommitted, batch)
      else case validatePath path of
        Some e \<Rightarrow> (Some e, batch)
      | None \<Rightarrow>
          if path = [] then (Some ErrInvalidPath, batch)
          else (None, batch\<lparr>operations := operations batch @
                  [\<lparr>op_Type = BatchOpDelete, op_Path = normalizePath path, op_Content = []\<rparr>]\<rparr>))"

definition Len :: "Batch \<Rightarrow> nat" where
  "Len batch = length (operations batch)"

text \<open>
  The loop of \<open>buildTreeEntries\<close>, with the entries and the calls made so far. A delete
  asks \<open>Exists\<close>, which polls the context once.
\<close>

fun buildTreeEntries_loop ::
  "client \<Rightarrow> Backend \<Rightarrow> context \<Rightarrow> BatchOperation list \<Rightarrow> tree_entry list \<Rightarrow> call list
     \<Rightarrow> (tree_entry list \<times> error option) \<times> call list" where
  "buildTreeEntries_loop cl b ctx [] entries calls = ((entries, None), calls)"
| "buildTreeEntries_loop cl b ctx (oper # ops) entries calls =
     (case op_Type oper of
        BatchOpWrite \<Rightarrow>
          (case CreateBlob cl (op_Content oper) ''utf-8'' of
             (sha, resp, err) \<Rightarrow>
               if err \<noteq> None
               then (([], translateError err resp),
                     calls @ [CreateBlobCall (op_Content oper) ''utf-8''])
               else buildTreeEntries_loop cl b ctx ops
                      (entries @ [\<lparr>te_Path = op_Path oper, te_Mode = ''100644'',
                                   te_Type = ''blob'', te_SHA = sha\<rparr>])
                      (calls @ [CreateBlobCall (op_Content oper) ''utf-8'']))
      | BatchOpDelete \<Rightarrow>
          (case Exists cl b ctx (op_Path oper) of
             ((exists, err), cs) \<Rightarrow>
               if err \<noteq> None then (([], err), calls @ cs)
               else if exists
               then buildTreeEntries_loop cl b (ctx_rest ctx) ops
                      (entries @ [\<lparr>te_Path = op_Path oper, te_Mode = ''100644'',
                                   te_Type = ''blob'', te_SHA = None\<rparr>])
                      (calls @ cs)
               else buildTreeEntries_loop cl b (ctx_rest ctx) ops entries (calls @ cs)))"

definition buildTreeEntries ::
  "client \<Rightarrow> Backend \<Rightarrow> context \<Rightarrow> Batch \<Rightarrow> (tree_entry list \<times> error option) \<times> call list" where
  "buildTreeEntries cl b ctx batch = buildTreeEntries_loop cl b ctx (operations batch) [] []"

definition Commit :: "client \<Rightarrow> Backend \<Rightarrow> context \<Rightarrow> Batch \<Rightarrow> error option \<times> Batch \<times> call list" where
  "Commit cl b ctx batch =
     (if committed batch then (Some BatchAlreadyCommitted, batch, [])
      else case checkClosed b of
        Some e \<Rightarrow> (Some e, batch, [])
      | None \<Rightarrow>
     (case ctx_Err ctx of
        Some e \<Rightarrow> (Some (ContextError e), batch, [])
      | None \<Rightarrow>
        if length (operations batch) = 0 then (None, batch\<lparr>committed := True\<rparr>, [])
        else
          (let refName = ''refs/heads/'' @ Branch (config b);
               calls1 = [GetRefCall refName]
           in case GetRef cl refName of
                (ref, resp1, err1) \<Rightarrow>
           if err1 \<noteq> None then (translateError err1 resp1, batch, calls1)
           else
          (let currentCommitSHA = ref_ObjectSHA ref;
               calls2 = calls1 @ [GetCommitCall currentCommitSHA]
           in case GetCommit cl currentCommitSHA of
                (baseTreeSHA, resp2, err2) \<Rightarrow>
           if err2 \<noteq> None then (translateError err2 resp2, batch, calls2)
           else
          (case buildTreeEntries cl b (ctx_rest ctx) batch of
             ((treeEntries, err3), cs) \<Rightarrow>
           if err3 \<noteq> None then (err3, batch, calls2 @ cs)
           else
          (let calls4 = calls2 @ cs @ [CreateTreeCall baseTreeSHA treeEntries]
           in case CreateTree cl baseTreeSHA treeEntries of
                (newTree, resp4, err4) \<Rightarrow>
           if err4 \<noteq> None then (translateError err4 resp4, batch, calls4)
           else
          (let commitOpts = \<lparr>gc_Message = message batch, gc_Tree = newTree,
                             gc_Parents = [currentCommitSHA],
                             gc_Author = CommitAuthor (config b)\<rparr>;
               calls5 = calls4 @ [CreateCommitCall commitOpts]
           in case CreateCommit cl commitOpts of
                (newCommitSHA, resp5, err5) \<Rightarrow>
           if err5 \<noteq> None then (translateError err5 resp5, batch, calls5)
           else
          (let ref' = ref\<lparr>ref_ObjectSHA := newCommitSHA\<rparr>;
               calls6 = calls5 @ [UpdateRefCall ref' False]
           in case UpdateRef cl ref' False of
                (resp6, err6) \<Rightarrow>
           if err6 \<noteq> None then (translateError err6 resp6, batch, calls6)
           else (None, batch\<lparr>committed := True\<rparr>, calls6)))))))))"

section \<open>The tree the remote store builds\<close>

text \<open>
  Modelled from the spec: the remote store's tree construction, which the repository calls
  (\<open>Git.CreateTree\<close>) and does not implement. The spec says of it: the new tree is the base
  tree plus the entry list, merged by path; an entry with no content identifier removes its
  path; duplicate paths are resolved by last-wins. A tree is a map from paths to blob
  identifiers.
\<close>

definition apply_entry :: "(string \<rightharpoonup> string) \<Rightarrow> tree_entry \<Rightarrow> (string \<rightharpoonup> string)" where
  "apply_entry t e =
     (case te_SHA e of
        None \<Rightarrow> t(te_Path e := None)
      | Some sha \<Rightarrow> t(te_Path e \<mapsto> sha))"

definition apply_entries :: "(string \<rightharpoonup> string) \<Rightarrow> tree_entry list \<Rightarrow> (string \<rightharpoonup> string)" where
  "apply_entries t es = foldl apply_entry t es"

section \<open>Path segments\<close>

text \<open>
  The elements of a path, separated by \<open>/\<close>. This is the notion the properties below speak
  of (a \<open>..\<close> segment); the source has no such function.
\<close>

function segments :: "string \<Rightarrow> string list" where
  "segments s =
     takeWhile (\<lambda>x. x \<noteq> CHR ''/'') s #
       (case dropWhile (\<lambda>x. x \<noteq> CHR ''/'') s of [] \<Rightarrow> [] | c # r \<Rightarrow> segments r)"
  by pat_completeness auto
termination
proof (relation "measure length", goal_cases)
  case 1
  show ?case by simp
next
  case (2 s c r)
  have "length (dropWhile (\<lambda>x. x \<noteq> CHR ''/'') s) \<le> length s"
    by (rule length_dropWhile_le)
  with 2 show ?case by simp
qed

text \<open>
  A name is a path element that stays in a cleaned path: not empty, without \<open>/\<close>, and
  neither \<open>.\<close> nor \<open>..\<close>.
\<close>

definition is_name :: "string \<Rightarrow> bool" where
  "is_name s = (s \<noteq> [] \<and> CHR ''/'' \<notin> set s \<and> s \<noteq> ''.'' \<and> s \<noteq> ''..'')"

text \<open>The elements joined by \<open>/\<close>.\<close>

fun join_segments :: "string list \<Rightarrow> string" where
  "join_segments [] = []"
| "join_segments [s] = s"
| "join_segments (s # t # ts) = s @ ''/'' @ join_segments (t # ts)"

text \<open>
  What \<open>path.Clean\<close> computes, in terms of segments: the state is the number of leading \<open>..\<close>
  elements and the names after them; \<^const>\<open>join_segments\<close> of both, after the root's \<open>/\<close>, is
  the buffer. One element of the path changes the state as \<open>clean_step\<close> says. The lemmas
  below show that the byte loop \<^const>\<open>clean_loop\<close> does exactly this.
\<close>

definition clean_render :: "bool \<Rightarrow> nat \<times> string list \<Rightarrow> string" where
  "clean_render rooted st = (if rooted then ''/'' else []) @ join_segments (replicate (fst st) ''..'' @ snd st)"

definition clean_step :: "bool \<Rightarrow> nat \<times> string list \<Rightarrow> string \<Rightarrow> nat \<times> string list" where
  "clean_step rooted st seg =
     (if seg = [] \<or> seg = ''.'' then st
      else if seg = ''..'' then
        (if snd st \<noteq> [] then (fst st, butlast (snd st))
         else if \<not> rooted then (Suc (fst st), [])
         else st)
      else (fst st, snd st @ [seg]))"

definition clean_inv :: "bool \<Rightarrow> nat \<times> string list \<Rightarrow> bool" where
  "clean_inv rooted st = ((rooted \<longrightarrow> fst st = 0) \<and> (\<forall>n\<in>set (snd st). is_name n))"

text \<open>The paths \<open>normalizePath\<close> returns besides the empty one: \<open>..\<close> elements, then names.\<close>

definition canonical :: "string \<Rightarrow> bool" where
  "canonical q = (\<exists>k ns. (\<forall>n\<in>set ns. is_name n) \<and> replicate k ''..'' @ ns \<noteq> [] \<and>
                         q = join_segments (replicate k ''..'' @ ns))"

section \<open>Concrete backends, clients and replies\<close>

text \<open>
  The inputs at which the theorems below are instantiated: an open backend with the default
  configuration, the replies of a lookup (a 404, a file, a directory, a transport failure
  that carries no response), and a client built from a lookup function and a tree listing
  whose mutations all succeed.
\<close>

definition ex_config :: Config where
  "ex_config = \<lparr>Owner = ''grokify'', Repo = ''demo'', Branch = ''main'', Token = ''secret'',
                 BaseURL = ''https://api.github.com/'', UploadURL = ''https://uploads.github.com/'',
                 CommitMessage = [], CommitAuthor = None\<rparr>"

definition ex_backend :: Backend where
  "ex_backend = \<lparr>config = ex_config, closed = False\<rparr>"

definition reply_not_found :: contents_reply where
  "reply_not_found = \<lparr>fileContent = None, directoryContent = None,
                       c_resp = Some (Response 404),
                       c_err = Some (ErrorResponse (Some (Response 404)))\<rparr>"

definition reply_file :: "string \<Rightarrow> contents_reply" where
  "reply_file sha = \<lparr>fileContent = Some \<lparr>rc_Type = ''file'', rc_SHA = sha, rc_Size = 5,
                                          rc_Content = Inr ''hello''\<rparr>,
                      directoryContent = None, c_resp = Some (Response 200), c_err = None\<rparr>"

definition reply_directory :: contents_reply where
  "reply_directory = \<lparr>fileContent = None, directoryContent = Some [],
                       c_resp = Some (Response 200), c_err = None\<rparr>"

definition reply_transport_failure :: contents_reply where
  "reply_transport_failure = \<lparr>fileContent = None, directoryContent = None, c_resp = None,
                               c_err = Some (OtherError ''connection reset by peer'')\<rparr>"

definition ex_client :: "(string \<Rightarrow> contents_reply) \<Rightarrow> tree_entry list \<Rightarrow> client" where
  "ex_client lookup tree =
     \<lparr>GetContents = (\<lambda>path ref. lookup path),
      CreateFile = (\<lambda>path opts. (Some (Response 201), None)),
      DeleteFile = (\<lambda>path opts. (Some (Response 200), None)),
      GetTree = (\<lambda>branch recursive. (tree, Some (Response 200), None)),
      GetRef = (\<lambda>name. (\<lparr>ref_Name = name, ref_ObjectSHA = ''c0''\<rparr>, Some (Response 200), None)),
      GetCommit = (\<lambda>sha. (''t0'', Some (Response 200), None)),
      CreateBlob = (\<lambda>content encoding. (Some (''blob-'' @ content), Some (Response 201), None)),
      CreateTree = (\<lambda>base entries. (''t1'', Some (Response 201), None)),
      CreateCommit = (\<lambda>c. (''c1'', Some (Response 201), None)),
      UpdateRef = (\<lambda>r force. (Some (Response 200), None))\<rparr>"

text \<open>
  Clients whose lookups all answer the same: nothing exists; everything is a file with
  hash \<open>f0\<close>; everything is a directory; every lookup fails in transport. And a client
  whose tree listing is \<open>tree\<close>.
\<close>

definition client_absent :: client where
  "client_absent = ex_client (\<lambda>path. reply_not_found) []"

definition client_present :: client where
  "client_present = ex_client (\<lambda>path. reply_file ''f0'') []"

definition client_directory :: client where
  "client_directory = ex_client (\<lambda>path. reply_directory) []"

definition client_unreachable :: client where
  "client_unreachable = ex_client (\<lambda>path. reply_transport_failure) []"

definition client_listing :: "tree_entry list \<Rightarrow> client" where
  "client_listing tree = ex_client (\<lambda>path. reply_not_found) tree"

text \<open>A client whose ref update is refused (the branch has moved): status 422.\<close>

definition ex_client_conflict :: client where
  "ex_client_conflict =
     client_absent
       \<lparr>UpdateRef := (\<lambda>r force. (Some (Response 422), Some (ErrorResponse (Some (Response 422)))))\<rparr>"

definition write_op :: "string \<Rightarrow> string \<Rightarrow> BatchOperation" where
  "write_op path content = \<lparr>op_Type = BatchOpWrite, op_Path = path, op_Content = content\<rparr>"

definition delete_op :: "string \<Rightarrow> BatchOperation" where
  "delete_op path = \<lparr>op_Type = BatchOpDelete, op_Path = path, op_Content = []\<rparr>"

definition ex_batch :: "BatchOperation list \<Rightarrow> Batch" where
  "ex_batch ops = \<lparr>message = ''Batch update via omnistorage'', operations = ops,
                   committed = False\<rparr>"

text \<open>A backend with the commit-message template of the README, and an open writer.\<close>

definition ex_backend_bot :: Backend where
  "ex_backend_bot = \<lparr>config = ex_config\<lparr>CommitMessage := ''[bot] Update {path}''\<rparr>,
                      closed = False\<rparr>"

definition ex_writer :: writer where
  "ex_writer = \<lparr>w_filePath = ''a/b.txt'', w_buffer = ''hello'', w_closed = False\<rparr>"

text \<open>
  A recursive tree listing with the directories \<open>a\<close> and \<open>ab\<close> and one file in each.
\<close>

definition ex_tree :: "tree_entry list" where
  "ex_tree =
     [\<lparr>te_Path = ''a'', te_Mode = ''040000'', te_Type = ''tree'', te_SHA = Some ''d1''\<rparr>,
      \<lparr>te_Path = ''a/b.txt'', te_Mode = ''100644'', te_Type = ''blob'', te_SHA = Some ''f1''\<rparr>,
      \<lparr>te_Path = ''ab'', te_Mode = ''040000'', te_Type = ''tree'', te_SHA = Some ''d2''\<rparr>,
      \<lparr>te_Path = ''ab/other.txt'', te_Mode = ''100644'', te_Type = ''blob'', te_SHA = Some ''f2''\<rparr>]"

section \<open>Properties\<close>

subsection \<open>Helper lemmas\<close>

declare segments.simps [simp del]

lemma HasPrefix_append: "HasPrefix (p @ s) p"
  by (induction p) auto

lemma Contains_append: "Contains (a @ s @ b) s"
proof (induction a)
  case Nil
  show ?case by (cases "s @ b") (use HasPrefix_append [of s b] in auto)
next
  case (Cons x a)
  then show ?case by simp
qed

lemma translateError_Some: "translateError (Some e) resp \<noteq> None"
  by (simp add: translateError_def split: option.splits api_error.splits)

lemma translateError_not_invalid: "translateError err resp \<noteq> Some ErrInvalidPath"
  by (auto simp: translateError_def status_error_def
      split: option.splits api_error.splits if_splits)

lemma translateError_NotFound:
  "translateError (Some e) resp = Some ErrNotFound \<Longrightarrow> resp_is_404 resp \<or> err_is_404 (Some e)"
  by (auto simp: translateError_def status_error_def resp_is_404_def err_is_404_def
      split: option.splits api_error.splits if_splits)

subsection \<open>Validation rejects every path that contains \<open>..\<close>\<close>

text \<open>
  Claim C8. \<open>validatePath\<close> returns \<open>ErrInvalidPath\<close> for every path that contains the two
  bytes \<open>..\<close> anywhere, whatever stands before and after them. This is more than rejecting
  \<open>..\<close> segments: \<open>a..b\<close> and \<open>file..txt\<close> have no \<open>..\<close> segment and are rejected.
\<close>

theorem validatePath_rejects_dotdot_substring:
  "(\<forall>a b. validatePath (a @ ''..'' @ b) = Some ErrInvalidPath) \<and>
   validatePath ''a..b'' = Some ErrInvalidPath \<and> ''..'' \<notin> set (segments ''a..b'') \<and>
   validatePath ''file..txt'' = Some ErrInvalidPath \<and> ''..'' \<notin> set (segments ''file..txt'')"
proof -
  have "validatePath (a @ ''..'' @ b) = Some ErrInvalidPath" for a b
    using Contains_append [of a "''..''" b] by (simp add: validatePath_def)
  moreover have "validatePath ''a..b'' = Some ErrInvalidPath" by code_simp
  moreover have "''..'' \<notin> set (segments ''a..b'')" by code_simp
  moreover have "validatePath ''file..txt'' = Some ErrInvalidPath" by code_simp
  moreover have "''..'' \<notin> set (segments ''file..txt'')" by code_simp
  ultimately show ?thesis by blast
qed

subsection \<open>Committing an empty batch\<close>

text \<open>
  Claim C5. A \<open>Commit\<close> of a batch whose queue is empty issues no network call; and once
  past the guards every operation starts with (the batch is not committed yet, the backend
  is open, the context is live) it marks the batch committed and returns success.
\<close>

theorem Commit_empty_queue:
  assumes "operations batch = []"
  shows "snd (snd (Commit cl b ctx batch)) = [] \<and>
         (\<not> committed batch \<and> \<not> closed b \<and> ctx_Err ctx = None \<longrightarrow>
            Commit cl b ctx batch = (None, batch\<lparr>committed := True\<rparr>, []))"
  using assms by (simp add: Commit_def checkClosed_def split: option.splits)

text \<open>The theorem of C5 at a fresh empty batch on an open backend.\<close>

theorem Commit_empty_queue_witness:
  "operations (ex_batch []) = [] \<and>
   Commit client_absent ex_backend [] (ex_batch []) =
     (None, (ex_batch [])\<lparr>committed := True\<rparr>, [])"
proof -
  have e: "operations (ex_batch []) = []"
    by (simp add: ex_batch_def)
  have pre: "\<not> committed (ex_batch []) \<and> \<not> closed ex_backend \<and> ctx_Err [] = None"
    by (simp add: ex_batch_def ex_backend_def ctx_Err_def)
  from Commit_empty_queue [OF e, of client_absent ex_backend "[]"] pre e
  show ?thesis by blast
qed

subsection \<open>\<open>Delete\<close> of an absent path and of a directory\<close>

text \<open>
  Claim C6. When \<open>Delete\<close> reaches its lookup (open backend, live context, a valid and
  non-empty path): if the lookup fails and the failure is classified as \<open>ErrNotFound\<close>,
  \<open>Delete\<close> returns success and the lookup is its only call, so it issues no mutation; if
  the lookup succeeds with no file content, which is the reply for a directory, \<open>Delete\<close>
  fails with the cannot-delete-directory error, again with no mutation.
\<close>

theorem Delete_not_found_and_directory:
  assumes "\<not> closed b" and "ctx_Err ctx = None"
    and "validatePath path = None" and "path \<noteq> []"
    and "r = GetContents cl (normalizePath path) (Branch (config b))"
  shows "(c_err r \<noteq> None \<and> translateError (c_err r) (c_resp r) = Some ErrNotFound \<longrightarrow>
            Delete cl b ctx path =
              (None, [GetContentsCall (normalizePath path) (Branch (config b))])) \<and>
         (c_err r = None \<and> fileContent r = None \<longrightarrow>
            Delete cl b ctx path =
              (Some (CannotDeleteDirectory path),
               [GetContentsCall (normalizePath path) (Branch (config b))]))"
  using assms translateError_NotFound [of _ "c_resp r"]
  by (auto simp: Delete_def checkClosed_def Let_def)

text \<open>The theorem of C6 at a lookup answered 404 and at a lookup answered with a directory.\<close>

theorem Delete_not_found_and_directory_witness:
  "Delete client_absent ex_backend [] ''gone.txt'' =
     (None, [GetContentsCall ''gone.txt'' ''main'']) \<and>
   Delete client_directory ex_backend [] ''docs'' =
     (Some (CannotDeleteDirectory ''docs''), [GetContentsCall ''docs'' ''main''])"
proof -
  let ?nf = client_absent
  let ?dir = client_directory
  have o: "\<not> closed ex_backend" by (simp add: ex_backend_def)
  have c: "ctx_Err [] = None" by (simp add: ctx_Err_def)
  have br: "Branch (config ex_backend) = ''main''" by (simp add: ex_backend_def ex_config_def)
  have v1: "validatePath ''gone.txt'' = None" by code_simp
  have n1: "normalizePath ''gone.txt'' = ''gone.txt''" by code_simp
  have v2: "validatePath ''docs'' = None" by code_simp
  have n2: "normalizePath ''docs'' = ''docs''" by code_simp
  have r1: "c_err reply_not_found \<noteq> None \<and>
            translateError (c_err reply_not_found) (c_resp reply_not_found) = Some ErrNotFound"
    by (simp add: reply_not_found_def translateError_def status_error_def)
  have r2: "c_err reply_directory = None \<and> fileContent reply_directory = None"
    by (simp add: reply_directory_def)
  have g1: "reply_not_found = GetContents ?nf (normalizePath ''gone.txt'') (Branch (config ex_backend))"
    by (simp add: ex_client_def client_absent_def client_present_def client_directory_def)
  have g2: "reply_directory = GetContents ?dir (normalizePath ''docs'') (Branch (config ex_backend))"
    by (simp add: ex_client_def client_absent_def client_present_def client_directory_def)
  from Delete_not_found_and_directory [OF o c v1 _ g1] r1
  have "Delete ?nf ex_backend [] ''gone.txt'' = (None, [GetContentsCall ''gone.txt'' ''main''])"
    by (simp add: n1 br)
  moreover from Delete_not_found_and_directory [OF o c v2 _ g2] r2
  have "Delete ?dir ex_backend [] ''docs'' =
          (Some (CannotDeleteDirectory ''docs''), [GetContentsCall ''docs'' ''main''])"
    by (simp add: n2 br)
  ultimately show ?thesis by simp
qed

subsection \<open>The committed flag of a non-empty batch\<close>

text \<open>
  Claim C4. For a non-empty batch, whatever the remote store answers: if \<open>Commit\<close> returns
  an error the batch is unchanged, so its committed flag is what it was; and if \<open>Commit\<close>
  returns success, the batch was uncommitted, it is now committed, and each of the six steps
  succeeded (the ref and the base tree were resolved, the entries were built, the tree and
  the commit were created, the ref was updated), in this order in the trace of calls.
\<close>

theorem Commit_committed_only_after_success:
  assumes "operations batch \<noteq> []" and "Commit cl b ctx batch = (res, batch', calls)"
  shows "(res \<noteq> None \<longrightarrow> batch' = batch) \<and>
         (res = None \<longrightarrow> \<not> committed batch \<and> batch' = batch\<lparr>committed := True\<rparr> \<and>
            (\<exists>ref r1 baseTree r2 entries cs newTree r4 newCommit r5 r6.
               GetRef cl (''refs/heads/'' @ Branch (config b)) = (ref, r1, None) \<and>
               GetCommit cl (ref_ObjectSHA ref) = (baseTree, r2, None) \<and>
               buildTreeEntries cl b (ctx_rest ctx) batch = ((entries, None), cs) \<and>
               CreateTree cl baseTree entries = (newTree, r4, None) \<and>
               CreateCommit cl \<lparr>gc_Message = message batch, gc_Tree = newTree,
                                 gc_Parents = [ref_ObjectSHA ref],
                                 gc_Author = CommitAuthor (config b)\<rparr> = (newCommit, r5, None) \<and>
               UpdateRef cl (ref\<lparr>ref_ObjectSHA := newCommit\<rparr>) False = (r6, None) \<and>
               calls = [GetRefCall (''refs/heads/'' @ Branch (config b)),
                        GetCommitCall (ref_ObjectSHA ref)] @ cs @
                       [CreateTreeCall baseTree entries,
                        CreateCommitCall \<lparr>gc_Message = message batch, gc_Tree = newTree,
                                 gc_Parents = [ref_ObjectSHA ref],
                                 gc_Author = CommitAuthor (config b)\<rparr>,
                        UpdateRefCall (ref\<lparr>ref_ObjectSHA := newCommit\<rparr>) False]))"
  using assms translateError_Some
  by (auto simp: Commit_def checkClosed_def Let_def split: option.splits if_splits prod.splits)

text \<open>
  The theorem of C4 at a batch of one write whose ref update is refused: \<open>Commit\<close> returns
  the error and the batch stays uncommitted.
\<close>

theorem Commit_committed_only_after_success_witness:
  "operations (ex_batch [write_op ''a.txt'' ''hello'']) \<noteq> [] \<and>
   fst (Commit ex_client_conflict ex_backend [] (ex_batch [write_op ''a.txt'' ''hello''])) =
     Some (Wrapped (ErrorResponse (Some (Response 422)))) \<and>
   \<not> committed (fst (snd (Commit ex_client_conflict ex_backend [] (ex_batch [write_op ''a.txt'' ''hello'']))))"
proof -
  let ?batch = "ex_batch [write_op ''a.txt'' ''hello'']"
  obtain res batch' calls where c: "Commit ex_client_conflict ex_backend [] ?batch = (res, batch', calls)"
    by (cases "Commit ex_client_conflict ex_backend [] ?batch") 
  have ne: "operations ?batch \<noteq> []" by (simp add: ex_batch_def)
  have r: "fst (Commit ex_client_conflict ex_backend [] ?batch) =
             Some (Wrapped (ErrorResponse (Some (Response 422))))"
    by code_simp
  then have "res \<noteq> None" using c by simp
  with Commit_committed_only_after_success [OF ne c] have "batch' = ?batch" by blast
  then have "\<not> committed (fst (snd (Commit ex_client_conflict ex_backend [] ?batch)))"
    using c by (simp add: ex_batch_def)
  with ne r show ?thesis by blast
qed

subsection \<open>\<open>List\<close> does not validate its prefix\<close>

lemma list_loop_not_invalid: "snd (list_loop ctx p es acc) \<noteq> Some ErrInvalidPath"
  by (induction es arbitrary: ctx acc) (auto split: option.splits)

text \<open>
  Claim C10. \<open>List\<close> never returns \<open>ErrInvalidPath\<close>, whatever the prefix, the state of the
  backend and the answers of the remote store; and on an open backend with a live context
  it issues the recursive-tree call for every prefix, also one with a \<open>..\<close> segment. On the
  same backend \<open>NewReader\<close>, \<open>NewWriter\<close>, \<open>Delete\<close>, \<open>Exists\<close> and \<open>Stat\<close> return
  \<open>ErrInvalidPath\<close> for every path that contains \<open>..\<close>, before any call.
\<close>

theorem List_does_not_validate_prefix:
  "snd (fst (List cl b ctx prefix)) \<noteq> Some ErrInvalidPath \<and>
   (\<not> closed b \<and> ctx_Err ctx = None \<longrightarrow>
      snd (List cl b ctx prefix) = [GetTreeCall (Branch (config b)) True] \<and>
      NewReader cl b ctx (x @ ''..'' @ y) cfg = ((None, Some ErrInvalidPath), []) \<and>
      NewWriter b ctx (x @ ''..'' @ y) = (None, Some ErrInvalidPath) \<and>
      Delete cl b ctx (x @ ''..'' @ y) = (Some ErrInvalidPath, []) \<and>
      Exists cl b ctx (x @ ''..'' @ y) = ((False, Some ErrInvalidPath), []) \<and>
      Stat cl b ctx (x @ ''..'' @ y) = ((None, Some ErrInvalidPath), []))"
proof -
  have v: "validatePath (x @ ''..'' @ y) = Some ErrInvalidPath"
    using Contains_append [of x "''..''" y] by (simp add: validatePath_def)
  have "snd (fst (List cl b ctx prefix)) \<noteq> Some ErrInvalidPath"
    using translateError_not_invalid list_loop_not_invalid
    by (auto simp: List_def checkClosed_def Let_def split: option.splits prod.splits)
  moreover have "snd (List cl b ctx prefix) = [GetTreeCall (Branch (config b)) True]"
    if "\<not> closed b" "ctx_Err ctx = None"
    using that by (auto simp: List_def checkClosed_def Let_def split: prod.splits)
  moreover have "NewReader cl b ctx (x @ ''..'' @ y) cfg = ((None, Some ErrInvalidPath), [])"
    if "\<not> closed b" "ctx_Err ctx = None"
    using that v by (simp add: NewReader_def checkClosed_def)
  moreover have "NewWriter b ctx (x @ ''..'' @ y) = (None, Some ErrInvalidPath)"
    if "\<not> closed b" "ctx_Err ctx = None"
    using that v by (simp add: NewWriter_def checkClosed_def)
  moreover have "Delete cl b ctx (x @ ''..'' @ y) = (Some ErrInvalidPath, [])"
    if "\<not> closed b" "ctx_Err ctx = None"
    using that v by (simp add: Delete_def checkClosed_def)
  moreover have "Exists cl b ctx (x @ ''..'' @ y) = ((False, Some ErrInvalidPath), [])"
    if "\<not> closed b" "ctx_Err ctx = None"
    using that v by (simp add: Exists_def checkClosed_def)
  moreover have "Stat cl b ctx (x @ ''..'' @ y) = ((None, Some ErrInvalidPath), [])"
    if "\<not> closed b" "ctx_Err ctx = None"
    using that v by (simp add: Stat_def checkClosed_def)
  ultimately show ?thesis by blast
qed

text \<open>The theorem of C10 at the prefix \<open>../a\<close> on an open backend.\<close>

theorem List_does_not_validate_prefix_witness:
  "snd (List (client_listing ex_tree) ex_backend [] ''../a'') =
     [GetTreeCall ''main'' True] \<and>
   snd (fst (List (client_listing ex_tree) ex_backend [] ''../a'')) \<noteq>
     Some ErrInvalidPath \<and>
   Exists (client_listing ex_tree) ex_backend [] ''../a'' =
     ((False, Some ErrInvalidPath), [])"
proof -
  have pre: "\<not> closed ex_backend \<and> ctx_Err [] = None"
    by (simp add: ex_backend_def ctx_Err_def)
  have br: "Branch (config ex_backend) = ''main''"
    by (simp add: ex_backend_def ex_config_def)
  from List_does_not_validate_prefix
         [of "client_listing ex_tree" ex_backend "[]" "''../a''" "[]" "''/a''"]
       pre br
  show ?thesis by simp
qed

subsection \<open>The commit message of \<open>Delete\<close>\<close>

text \<open>
  Claim C9. With a commit-message template configured, a \<open>Delete\<close> that finds a file issues
  its delete mutation with the message obtained from the template by substituting the
  normalised path for \<open>{path}\<close> first and replacing every \<open>Update\<close> by \<open>Delete\<close> in the
  whole result afterwards. The second replacement therefore rewrites the path too: with the
  template \<open>[bot] Update {path}\<close>, deleting \<open>Updates/a.txt\<close> is committed as
  \<open>[bot] Delete Deletes/a.txt\<close> (the witness below).
\<close>

theorem Delete_commit_message:
  assumes "\<not> closed b" and "ctx_Err ctx = None"
    and "validatePath path = None" and "path \<noteq> []"
    and "CommitMessage (config b) \<noteq> []"
    and "GetContents cl (normalizePath path) (Branch (config b)) = r"
    and "c_err r = None" and "fileContent r = Some f"
  shows "\<exists>opts. snd (Delete cl b ctx path) =
                  [GetContentsCall (normalizePath path) (Branch (config b)),
                   DeleteFileCall (normalizePath path) opts] \<and>
                opt_Message opts =
                  ReplaceAll (ReplaceAll (CommitMessage (config b)) ''{path}'' (normalizePath path))
                    ''Update'' ''Delete''"
  using assms
  by (auto simp: Delete_def checkClosed_def Let_def delete_message_def split: prod.splits)

text \<open>The theorem of C9 at the path \<open>Updates/a.txt\<close> and the template \<open>[bot] Update {path}\<close>.\<close>

theorem Delete_commit_message_witness:
  "\<exists>opts. snd (Delete client_present ex_backend_bot [] ''Updates/a.txt'') =
            [GetContentsCall ''Updates/a.txt'' ''main'', DeleteFileCall ''Updates/a.txt'' opts] \<and>
          opt_Message opts = ''[bot] Delete Deletes/a.txt''"
proof -
  let ?cl = client_present
  have o: "\<not> closed ex_backend_bot" by (simp add: ex_backend_bot_def)
  have c: "ctx_Err [] = None" by (simp add: ctx_Err_def)
  have v: "validatePath ''Updates/a.txt'' = None" by code_simp
  have n: "normalizePath ''Updates/a.txt'' = ''Updates/a.txt''" by code_simp
  have br: "Branch (config ex_backend_bot) = ''main''"
    by (simp add: ex_backend_bot_def ex_config_def)
  have t: "CommitMessage (config ex_backend_bot) = ''[bot] Update {path}''"
    by (simp add: ex_backend_bot_def ex_config_def)
  have g: "GetContents ?cl (normalizePath ''Updates/a.txt'') (Branch (config ex_backend_bot)) =
             reply_file ''f0''"
    by (simp add: ex_client_def client_absent_def client_present_def client_directory_def)
  have e: "c_err (reply_file ''f0'') = None" by (simp add: reply_file_def)
  have f: "fileContent (reply_file ''f0'') =
             Some \<lparr>rc_Type = ''file'', rc_SHA = ''f0'', rc_Size = 5, rc_Content = Inr ''hello''\<rparr>"
    by (simp add: reply_file_def)
  have m: "ReplaceAll (ReplaceAll ''[bot] Update {path}'' ''{path}'' ''Updates/a.txt'')
             ''Update'' ''Delete'' = ''[bot] Delete Deletes/a.txt''"
    by code_simp
  from Delete_commit_message [OF o c v _ _ g e f] t
  show ?thesis by (simp add: n br m)
qed

subsection \<open>\<open>List\<close> and sibling prefixes\<close>

text \<open>
  Claim C2 says that \<open>List\<close> keeps the blobs whose path is the normalised prefix or starts
  with the prefix followed by \<open>/\<close>, so that \<open>List("a")\<close> leaves out \<open>ab/other.txt\<close>. The
  source skips an entry only when its path neither starts with the prefix nor with the
  prefix followed by \<open>/\<close>; the first test alone decides. On a tree with the files
  \<open>a/b.txt\<close> and \<open>ab/other.txt\<close>, \<open>List("a")\<close> returns both.
\<close>

theorem List_keeps_sibling_prefix:
  "fst (List (client_listing ex_tree) ex_backend [] ''a'') =
     ([''a/b.txt'', ''ab/other.txt''], None)"
  by code_simp

subsection \<open>The lookup of the writer's \<open>Close\<close>\<close>

text \<open>
  Claim C3 says that a lookup failure other than not-found aborts \<open>Close\<close> before the
  mutation, and that a lookup that finds a directory is an error. Take a writer for
  \<open>a/b.txt\<close> that has buffered \<open>hello\<close>. In the source, a lookup
  that fails with no response (a transport failure, which \<open>translateError\<close> wraps and does
  not classify as not-found) falls through to the create-or-update call, sent with no version
  marker; and a lookup that finds a directory makes \<open>Close\<close> return nil with no mutation.
\<close>

theorem writer_Close_ignores_lookup_failures:
  "NewWriter ex_backend [] ''a/b.txt'' =
     (Some \<lparr>w_filePath = ''a/b.txt'', w_buffer = [], w_closed = False\<rparr>, None) \<and>
   snd (writer_Write \<lparr>w_filePath = ''a/b.txt'', w_buffer = [], w_closed = False\<rparr> ''hello'') =
     ex_writer \<and>
   translateError (c_err reply_transport_failure) (c_resp reply_transport_failure) =
     Some (Wrapped (OtherError ''connection reset by peer'')) \<and>
   writer_Close client_unreachable ex_backend [] ex_writer =
     (None, ex_writer\<lparr>w_closed := True\<rparr>,
      [GetContentsCall ''a/b.txt'' ''main'',
       CreateFileCall ''a/b.txt''
         \<lparr>opt_Message = ''Update a/b.txt via omnistorage'', opt_Content = ''hello'',
          opt_Branch = ''main'', opt_SHA = None, opt_Author = None\<rparr>]) \<and>
   writer_Close client_directory ex_backend [] ex_writer =
     (None, ex_writer\<lparr>w_closed := True\<rparr>, [GetContentsCall ''a/b.txt'' ''main''])"
  by code_simp

subsection \<open>A write followed by a delete of the same path\<close>

lemma translateError_eq_None: "translateError err resp = None \<longleftrightarrow> err = None"
  by (cases err) (simp_all add: translateError_def split: option.splits api_error.splits)

lemma apply_entries_snoc: "apply_entries t (es @ [e]) = apply_entry (apply_entries t es) e"
  by (simp add: apply_entries_def)

lemma apply_entries_snoc_delete:
  "te_Path e = P \<Longrightarrow> te_SHA e = None \<Longrightarrow> apply_entries t (es @ [e]) P = None"
  by (simp add: apply_entries_snoc apply_entry_def)

lemma apply_entries_snoc_other:
  "te_Path e \<noteq> P \<Longrightarrow> apply_entries t (es @ [e]) P = apply_entries t es P"
  by (simp add: apply_entries_snoc apply_entry_def split: option.splits)

lemma Exists_found:
  assumes "Exists cl b ctx P = ((ex, None), cs)"
    and "c_err (GetContents cl (normalizePath P) (Branch (config b))) = None"
  shows "ex"
  using assms
  by (auto simp: Exists_def checkClosed_def Let_def split: option.splits if_splits)

lemma loop_keeps_removed:
  assumes "buildTreeEntries_loop cl b ctx zs acc calls = ((es, None), cs)"
    and "\<forall>t. apply_entries t acc P = None"
    and "\<forall>z\<in>set zs. op_Type z = BatchOpWrite \<longrightarrow> op_Path z \<noteq> P"
  shows "apply_entries t es P = None"
  using assms
proof (induction zs arbitrary: ctx acc calls)
  case Nil
  then show ?case by simp
next
  case (Cons z zs)
  show ?case
  proof (cases "op_Type z")
    case BatchOpWrite
    then have ne: "op_Path z \<noteq> P" using Cons.prems(3) by simp
    obtain sha resp err where cb: "CreateBlob cl (op_Content z) ''utf-8'' = (sha, resp, err)"
      by (cases "CreateBlob cl (op_Content z) ''utf-8''") 
    have err: "err = None"
      using Cons.prems(1) BatchOpWrite cb
      by (auto simp: translateError_eq_None split: if_splits)
    let ?e = "\<lparr>te_Path = op_Path z, te_Mode = ''100644'', te_Type = ''blob'', te_SHA = sha\<rparr>"
    have rec: "buildTreeEntries_loop cl b ctx zs (acc @ [?e])
                 (calls @ [CreateBlobCall (op_Content z) ''utf-8'']) = ((es, None), cs)"
      using Cons.prems(1) BatchOpWrite cb err by simp
    have "\<forall>t. apply_entries t (acc @ [?e]) P = None"
      using Cons.prems(2) ne by (simp add: apply_entries_snoc_other)
    from Cons.IH [OF rec this] Cons.prems(3) show ?thesis by simp
  next
    case BatchOpDelete
    obtain ex err cs' where e: "Exists cl b ctx (op_Path z) = ((ex, err), cs')"
      by (cases "Exists cl b ctx (op_Path z)") auto
    have err: "err = None"
      using Cons.prems(1) BatchOpDelete e by (auto split: if_splits)
    let ?e = "\<lparr>te_Path = op_Path z, te_Mode = ''100644'', te_Type = ''blob'', te_SHA = None\<rparr>"
    show ?thesis
    proof (cases ex)
      case True
      have rec: "buildTreeEntries_loop cl b (ctx_rest ctx) zs (acc @ [?e]) (calls @ cs') = ((es, None), cs)"
        using Cons.prems(1) BatchOpDelete e err True by simp
      have "\<forall>t. apply_entries t (acc @ [?e]) P = None"
      proof (cases "op_Path z = P")
        case True
        then show ?thesis by (simp add: apply_entries_snoc_delete)
      next
        case False
        then show ?thesis using Cons.prems(2) by (simp add: apply_entries_snoc_other)
      qed
      from Cons.IH [OF rec this] Cons.prems(3) show ?thesis by simp
    next
      case False
      have rec: "buildTreeEntries_loop cl b (ctx_rest ctx) zs acc (calls @ cs') = ((es, None), cs)"
        using Cons.prems(1) BatchOpDelete e err False by simp
      from Cons.IH [OF rec Cons.prems(2)] Cons.prems(3) show ?thesis by simp
    qed
  qed
qed

lemma loop_delete_wins:
  assumes "buildTreeEntries_loop cl b ctx (xs @ d # zs) acc calls = ((es, None), cs)"
    and "op_Type d = BatchOpDelete" and "op_Path d = P"
    and "c_err (GetContents cl (normalizePath P) (Branch (config b))) = None"
    and "\<forall>z\<in>set zs. op_Type z = BatchOpWrite \<longrightarrow> op_Path z \<noteq> P"
  shows "apply_entries t es P = None"
  using assms(1)
proof (induction xs arbitrary: ctx acc calls)
  case Nil
  obtain ex err cs' where e: "Exists cl b ctx P = ((ex, err), cs')"
    by (cases "Exists cl b ctx P") auto
  have err: "err = None"
    using Nil assms(2,3) e by (auto split: if_splits)
  have ex using Exists_found [OF e [unfolded err] assms(4)] .
  let ?e = "\<lparr>te_Path = P, te_Mode = ''100644'', te_Type = ''blob'', te_SHA = None\<rparr>"
  have rec: "buildTreeEntries_loop cl b (ctx_rest ctx) zs (acc @ [?e]) (calls @ cs') = ((es, None), cs)"
    using Nil assms(2,3) e err \<open>ex\<close> by simp
  have "\<forall>t. apply_entries t (acc @ [?e]) P = None"
    by (simp add: apply_entries_snoc_delete)
  from loop_keeps_removed [OF rec this assms(5)] show ?case .
next
  case (Cons x xs)
  show ?case
  proof (cases "op_Type x")
    case BatchOpWrite
    obtain sha resp err where cb: "CreateBlob cl (op_Content x) ''utf-8'' = (sha, resp, err)"
      by (cases "CreateBlob cl (op_Content x) ''utf-8''") 
    have err: "err = None"
      using Cons.prems BatchOpWrite cb
      by (auto simp: translateError_eq_None split: if_splits)
    show ?thesis
      using Cons.prems BatchOpWrite cb err Cons.IH by simp
  next
    case BatchOpDelete
    obtain ex err cs' where e: "Exists cl b ctx (op_Path x) = ((ex, err), cs')"
      by (cases "Exists cl b ctx (op_Path x)") auto
    have err: "err = None"
      using Cons.prems BatchOpDelete e by (auto split: if_splits)
    show ?thesis
      using Cons.prems BatchOpDelete e err Cons.IH by (cases ex) simp_all
  qed
qed

lemma Commit_success_steps:
  assumes "operations batch \<noteq> []" and "Commit cl b ctx batch = (None, batch', calls)"
  shows "\<exists>ref r1 baseTree r2 es cs newTree r4 newCommit r5 r6.
           GetRef cl (''refs/heads/'' @ Branch (config b)) = (ref, r1, None) \<and>
           GetCommit cl (ref_ObjectSHA ref) = (baseTree, r2, None) \<and>
           buildTreeEntries cl b (ctx_rest ctx) batch = ((es, None), cs) \<and>
           CreateTree cl baseTree es = (newTree, r4, None) \<and>
           CreateCommit cl \<lparr>gc_Message = message batch, gc_Tree = newTree,
                             gc_Parents = [ref_ObjectSHA ref],
                             gc_Author = CommitAuthor (config b)\<rparr> = (newCommit, r5, None) \<and>
           UpdateRef cl (ref\<lparr>ref_ObjectSHA := newCommit\<rparr>) False = (r6, None) \<and>
           calls = [GetRefCall (''refs/heads/'' @ Branch (config b)),
                    GetCommitCall (ref_ObjectSHA ref)] @ cs @
                   [CreateTreeCall baseTree es,
                    CreateCommitCall \<lparr>gc_Message = message batch, gc_Tree = newTree,
                                      gc_Parents = [ref_ObjectSHA ref],
                                      gc_Author = CommitAuthor (config b)\<rparr>,
                    UpdateRefCall (ref\<lparr>ref_ObjectSHA := newCommit\<rparr>) False]"
  using assms
  by (auto simp: Commit_def checkClosed_def Let_def translateError_eq_None
      split: option.splits if_splits prod.splits)

lemma Exists_absent:
  assumes "Exists cl b ctx P = ((ex, None), cs)"
    and "c_err (GetContents cl (normalizePath P) (Branch (config b))) \<noteq> None"
  shows "\<not> ex"
  using assms
  by (auto simp: Exists_def checkClosed_def Let_def split: option.splits if_splits)

lemma apply_entries_snoc_write:
  "te_Path e = P \<Longrightarrow> apply_entries t (es @ [e]) P = te_SHA e"
  by (simp add: apply_entries_snoc apply_entry_def split: option.splits)

lemma loop_keeps_value:
  assumes "buildTreeEntries_loop cl b ctx zs acc calls = ((es, None), cs)"
    and "\<forall>t. apply_entries t acc P = v"
    and "\<forall>z\<in>set zs. op_Type z = BatchOpWrite \<longrightarrow> op_Path z \<noteq> P"
    and "c_err (GetContents cl (normalizePath P) (Branch (config b))) \<noteq> None"
  shows "apply_entries t es P = v"
  using assms(1,2,3)
proof (induction zs arbitrary: ctx acc calls)
  case Nil
  then show ?case by simp
next
  case (Cons z zs)
  show ?case
  proof (cases "op_Type z")
    case BatchOpWrite
    then have ne: "op_Path z \<noteq> P" using Cons.prems(3) by simp
    obtain sha resp err where cb: "CreateBlob cl (op_Content z) ''utf-8'' = (sha, resp, err)"
      by (cases "CreateBlob cl (op_Content z) ''utf-8''")
    have err: "err = None"
      using Cons.prems(1) BatchOpWrite cb
      by (auto simp: translateError_eq_None split: if_splits)
    let ?e = "\<lparr>te_Path = op_Path z, te_Mode = ''100644'', te_Type = ''blob'', te_SHA = sha\<rparr>"
    have rec: "buildTreeEntries_loop cl b ctx zs (acc @ [?e])
                 (calls @ [CreateBlobCall (op_Content z) ''utf-8'']) = ((es, None), cs)"
      using Cons.prems(1) BatchOpWrite cb err by simp
    have "\<forall>t. apply_entries t (acc @ [?e]) P = v"
      using Cons.prems(2) ne by (simp add: apply_entries_snoc_other)
    from Cons.IH [OF rec this] Cons.prems(3) show ?thesis by simp
  next
    case BatchOpDelete
    obtain ex err cs' where e: "Exists cl b ctx (op_Path z) = ((ex, err), cs')"
      by (cases "Exists cl b ctx (op_Path z)") auto
    have err: "err = None"
      using Cons.prems(1) BatchOpDelete e by (auto split: if_splits)
    let ?e = "\<lparr>te_Path = op_Path z, te_Mode = ''100644'', te_Type = ''blob'', te_SHA = None\<rparr>"
    show ?thesis
    proof (cases ex)
      case True
      then have ne: "op_Path z \<noteq> P"
        using Exists_absent [OF e [unfolded err]] assms(4) by auto
      have rec: "buildTreeEntries_loop cl b (ctx_rest ctx) zs (acc @ [?e]) (calls @ cs') = ((es, None), cs)"
        using Cons.prems(1) BatchOpDelete e err True by simp
      have "\<forall>t. apply_entries t (acc @ [?e]) P = v"
        using Cons.prems(2) ne by (simp add: apply_entries_snoc_other)
      from Cons.IH [OF rec this] Cons.prems(3) show ?thesis by simp
    next
      case False
      have rec: "buildTreeEntries_loop cl b (ctx_rest ctx) zs acc (calls @ cs') = ((es, None), cs)"
        using Cons.prems(1) BatchOpDelete e err False by simp
      from Cons.IH [OF rec Cons.prems(2)] Cons.prems(3) show ?thesis by simp
    qed
  qed
qed

lemma loop_write_stays:
  assumes "buildTreeEntries_loop cl b ctx (xs @ w # zs) acc calls = ((es, None), cs)"
    and "op_Type w = BatchOpWrite" and "op_Path w = P"
    and "\<forall>z\<in>set zs. op_Type z = BatchOpWrite \<longrightarrow> op_Path z \<noteq> P"
    and "c_err (GetContents cl (normalizePath P) (Branch (config b))) \<noteq> None"
  shows "apply_entries t es P = fst (CreateBlob cl (op_Content w) ''utf-8'')"
  using assms(1)
proof (induction xs arbitrary: ctx acc calls)
  case Nil
  obtain sha resp err where cb: "CreateBlob cl (op_Content w) ''utf-8'' = (sha, resp, err)"
    by (cases "CreateBlob cl (op_Content w) ''utf-8''")
  have err: "err = None"
    using Nil assms(2) cb by (auto simp: translateError_eq_None split: if_splits)
  let ?e = "\<lparr>te_Path = P, te_Mode = ''100644'', te_Type = ''blob'', te_SHA = sha\<rparr>"
  have rec: "buildTreeEntries_loop cl b ctx zs (acc @ [?e])
               (calls @ [CreateBlobCall (op_Content w) ''utf-8'']) = ((es, None), cs)"
    using Nil assms(2,3) cb err by simp
  have "\<forall>t. apply_entries t (acc @ [?e]) P = sha"
    by (simp add: apply_entries_snoc_write)
  from loop_keeps_value [OF rec this assms(4,5)] cb show ?case by simp
next
  case (Cons x xs)
  show ?case
  proof (cases "op_Type x")
    case BatchOpWrite
    obtain sha resp err where cb: "CreateBlob cl (op_Content x) ''utf-8'' = (sha, resp, err)"
      by (cases "CreateBlob cl (op_Content x) ''utf-8''")
    have err: "err = None"
      using Cons.prems BatchOpWrite cb
      by (auto simp: translateError_eq_None split: if_splits)
    show ?thesis
      using Cons.prems BatchOpWrite cb err Cons.IH by simp
  next
    case BatchOpDelete
    obtain ex err cs' where e: "Exists cl b ctx (op_Path x) = ((ex, err), cs')"
      by (cases "Exists cl b ctx (op_Path x)") auto
    have err: "err = None"
      using Cons.prems BatchOpDelete e by (auto split: if_splits)
    show ?thesis
      using Cons.prems BatchOpDelete e err Cons.IH by (cases ex) simp_all
  qed
qed

text \<open>
  Claim C1, amended. Let a batch queue a write of \<open>P\<close>, later a delete of \<open>P\<close>, and no
  write of \<open>P\<close> after that delete, and let \<open>Commit\<close> succeed. Then \<open>Commit\<close> has resolved
  the branch to a ref and the ref's commit to a base tree, has asked the remote store for the
  tree of the base tree and an entry list \<open>es\<close>, has created one commit whose tree is the
  tree the store answered and whose parent is the ref's commit, and has moved the ref to that
  commit; these are the last three calls of its trace. Of the tree that the store builds from
  a base tree \<open>t\<close> and \<open>es\<close> (\<^const>\<open>apply_entries\<close>) the following holds, whatever \<open>t\<close> is.
  If the existence check of the delete finds \<open>P\<close> on the branch (the lookup returns no
  error), the tree omits \<open>P\<close>. If the check does not find \<open>P\<close>, the delete is dropped: when
  the write is the last write of \<open>P\<close> before the delete and the store answered it with a
  blob identifier, the tree contains \<open>P\<close> with that blob.
\<close>

theorem Commit_write_then_delete:
  assumes "Commit cl b ctx batch = (None, batch', calls)"
    and "operations batch = xs @ w # ys @ d # zs"
    and "op_Type w = BatchOpWrite" and "op_Path w = P"
    and "op_Type d = BatchOpDelete" and "op_Path d = P"
    and "\<forall>z\<in>set zs. op_Type z = BatchOpWrite \<longrightarrow> op_Path z \<noteq> P"
    and "r = GetContents cl (normalizePath P) (Branch (config b))"
  shows "\<exists>ref r1 baseTree r2 es cs newTree r4 newCommit r5 r6.
           GetRef cl (''refs/heads/'' @ Branch (config b)) = (ref, r1, None) \<and>
           GetCommit cl (ref_ObjectSHA ref) = (baseTree, r2, None) \<and>
           CreateTree cl baseTree es = (newTree, r4, None) \<and>
           CreateCommit cl \<lparr>gc_Message = message batch, gc_Tree = newTree,
                             gc_Parents = [ref_ObjectSHA ref],
                             gc_Author = CommitAuthor (config b)\<rparr> = (newCommit, r5, None) \<and>
           UpdateRef cl (ref\<lparr>ref_ObjectSHA := newCommit\<rparr>) False = (r6, None) \<and>
           calls = [GetRefCall (''refs/heads/'' @ Branch (config b)),
                    GetCommitCall (ref_ObjectSHA ref)] @ cs @
                   [CreateTreeCall baseTree es,
                    CreateCommitCall \<lparr>gc_Message = message batch, gc_Tree = newTree,
                                      gc_Parents = [ref_ObjectSHA ref],
                                      gc_Author = CommitAuthor (config b)\<rparr>,
                    UpdateRefCall (ref\<lparr>ref_ObjectSHA := newCommit\<rparr>) False] \<and>
           (c_err r = None \<longrightarrow> (\<forall>t. apply_entries t es P = None)) \<and>
           (\<forall>sha. c_err r \<noteq> None \<and>
                  (\<forall>y\<in>set ys. op_Type y = BatchOpWrite \<longrightarrow> op_Path y \<noteq> P) \<and>
                  fst (CreateBlob cl (op_Content w) ''utf-8'') = Some sha \<longrightarrow>
                  (\<forall>t. apply_entries t es P = Some sha))"
proof -
  have ne: "operations batch \<noteq> []" using assms(2) by simp
  from Commit_success_steps [OF ne assms(1)]
  obtain ref r1 baseTree r2 es cs newTree r4 newCommit r5 r6 where
    s1: "GetRef cl (''refs/heads/'' @ Branch (config b)) = (ref, r1, None)" and
    s2: "GetCommit cl (ref_ObjectSHA ref) = (baseTree, r2, None)" and
    bt: "buildTreeEntries cl b (ctx_rest ctx) batch = ((es, None), cs)" and
    s4: "CreateTree cl baseTree es = (newTree, r4, None)" and
    s5: "CreateCommit cl \<lparr>gc_Message = message batch, gc_Tree = newTree,
                             gc_Parents = [ref_ObjectSHA ref],
                             gc_Author = CommitAuthor (config b)\<rparr> = (newCommit, r5, None)" and
    s6: "UpdateRef cl (ref\<lparr>ref_ObjectSHA := newCommit\<rparr>) False = (r6, None)" and
    tr: "calls = [GetRefCall (''refs/heads/'' @ Branch (config b)),
                    GetCommitCall (ref_ObjectSHA ref)] @ cs @
                   [CreateTreeCall baseTree es,
                    CreateCommitCall \<lparr>gc_Message = message batch, gc_Tree = newTree,
                                      gc_Parents = [ref_ObjectSHA ref],
                                      gc_Author = CommitAuthor (config b)\<rparr>,
                    UpdateRefCall (ref\<lparr>ref_ObjectSHA := newCommit\<rparr>) False]"
    by blast
  have l1: "buildTreeEntries_loop cl b (ctx_rest ctx) ((xs @ w # ys) @ d # zs) [] [] = ((es, None), cs)"
    using bt assms(2) by (simp add: buildTreeEntries_def)
  have l2: "buildTreeEntries_loop cl b (ctx_rest ctx) (xs @ w # (ys @ d # zs)) [] [] = ((es, None), cs)"
    using bt assms(2) by (simp add: buildTreeEntries_def)
  have a: "c_err r = None \<longrightarrow> (\<forall>t. apply_entries t es P = None)"
    using loop_delete_wins [OF l1 assms(5,6) _ assms(7)] assms(8) by blast
  have b: "\<forall>sha. c_err r \<noteq> None \<and>
                  (\<forall>y\<in>set ys. op_Type y = BatchOpWrite \<longrightarrow> op_Path y \<noteq> P) \<and>
                  fst (CreateBlob cl (op_Content w) ''utf-8'') = Some sha \<longrightarrow>
                  (\<forall>t. apply_entries t es P = Some sha)"
  proof (intro allI impI)
    fix sha t
    assume h: "c_err r \<noteq> None \<and>
                  (\<forall>y\<in>set ys. op_Type y = BatchOpWrite \<longrightarrow> op_Path y \<noteq> P) \<and>
                  fst (CreateBlob cl (op_Content w) ''utf-8'') = Some sha"
    then have "\<forall>z\<in>set (ys @ d # zs). op_Type z = BatchOpWrite \<longrightarrow> op_Path z \<noteq> P"
      using assms(5,7) by auto
    from loop_write_stays [OF l2 assms(3,4) this, of t] h assms(8)
    show "apply_entries t es P = Some sha" by simp
  qed
  show ?thesis
    using s1 s2 s4 s5 s6 tr a b by (intro exI conjI) assumption+
qed

text \<open>
  Claim C1 as stated, with \<open>P\<close> absent from the base tree: a fresh batch queues a write of
  \<open>new.txt\<close> and then a delete of it, and every lookup answers 404. \<open>Commit\<close> succeeds, the
  entry list it sends holds the write alone, and the tree built from the empty base tree
  contains \<open>new.txt\<close>. The claim also leaves open what follows the delete: when the
  batch writes \<open>old.txt\<close>, deletes it and writes it again, and \<open>old.txt\<close> is on the branch,
  the last write wins and the tree contains \<open>old.txt\<close>.
\<close>

theorem Commit_write_then_delete_counterexample:
  "Batch_Delete (snd (Batch_Write (ex_batch []) ''new.txt'' ''hello'')) ''new.txt'' =
     (None, ex_batch [write_op ''new.txt'' ''hello'', delete_op ''new.txt'']) \<and>
   Commit client_absent ex_backend []
     (ex_batch [write_op ''new.txt'' ''hello'', delete_op ''new.txt'']) =
     (None,
      (ex_batch [write_op ''new.txt'' ''hello'', delete_op ''new.txt''])\<lparr>committed := True\<rparr>,
      [GetRefCall ''refs/heads/main'', GetCommitCall ''c0'',
       CreateBlobCall ''hello'' ''utf-8'', GetContentsCall ''new.txt'' ''main'',
       CreateTreeCall ''t0''
         [\<lparr>te_Path = ''new.txt'', te_Mode = ''100644'', te_Type = ''blob'',
           te_SHA = Some ''blob-hello''\<rparr>],
       CreateCommitCall \<lparr>gc_Message = ''Batch update via omnistorage'', gc_Tree = ''t1'',
                         gc_Parents = [''c0''], gc_Author = None\<rparr>,
       UpdateRefCall \<lparr>ref_Name = ''refs/heads/main'', ref_ObjectSHA = ''c1''\<rparr> False]) \<and>
   apply_entries Map.empty
     [\<lparr>te_Path = ''new.txt'', te_Mode = ''100644'', te_Type = ''blob'',
       te_SHA = Some ''blob-hello''\<rparr>] ''new.txt'' = Some ''blob-hello'' \<and>
   snd (snd (Commit client_present ex_backend []
     (ex_batch [write_op ''old.txt'' ''hello'', delete_op ''old.txt'',
                write_op ''old.txt'' ''again'']))) =
     [GetRefCall ''refs/heads/main'', GetCommitCall ''c0'',
      CreateBlobCall ''hello'' ''utf-8'', GetContentsCall ''old.txt'' ''main'',
      CreateBlobCall ''again'' ''utf-8'',
      CreateTreeCall ''t0''
        [\<lparr>te_Path = ''old.txt'', te_Mode = ''100644'', te_Type = ''blob'',
          te_SHA = Some ''blob-hello''\<rparr>,
         \<lparr>te_Path = ''old.txt'', te_Mode = ''100644'', te_Type = ''blob'', te_SHA = None\<rparr>,
         \<lparr>te_Path = ''old.txt'', te_Mode = ''100644'', te_Type = ''blob'',
          te_SHA = Some ''blob-again''\<rparr>],
      CreateCommitCall \<lparr>gc_Message = ''Batch update via omnistorage'', gc_Tree = ''t1'',
                        gc_Parents = [''c0''], gc_Author = None\<rparr>,
      UpdateRefCall \<lparr>ref_Name = ''refs/heads/main'', ref_ObjectSHA = ''c1''\<rparr> False] \<and>
   apply_entries [''old.txt'' \<mapsto> ''f0'']
     [\<lparr>te_Path = ''old.txt'', te_Mode = ''100644'', te_Type = ''blob'',
       te_SHA = Some ''blob-hello''\<rparr>,
      \<lparr>te_Path = ''old.txt'', te_Mode = ''100644'', te_Type = ''blob'', te_SHA = None\<rparr>,
      \<lparr>te_Path = ''old.txt'', te_Mode = ''100644'', te_Type = ''blob'',
       te_SHA = Some ''blob-again''\<rparr>] ''old.txt'' = Some ''blob-again''"
proof -
  have "Batch_Delete (snd (Batch_Write (ex_batch []) ''new.txt'' ''hello'')) ''new.txt'' =
     (None, ex_batch [write_op ''new.txt'' ''hello'', delete_op ''new.txt''])"
    by code_simp
  moreover have "Commit client_absent ex_backend []
     (ex_batch [write_op ''new.txt'' ''hello'', delete_op ''new.txt'']) =
     (None,
      (ex_batch [write_op ''new.txt'' ''hello'', delete_op ''new.txt''])\<lparr>committed := True\<rparr>,
      [GetRefCall ''refs/heads/main'', GetCommitCall ''c0'',
       CreateBlobCall ''hello'' ''utf-8'', GetContentsCall ''new.txt'' ''main'',
       CreateTreeCall ''t0''
         [\<lparr>te_Path = ''new.txt'', te_Mode = ''100644'', te_Type = ''blob'',
           te_SHA = Some ''blob-hello''\<rparr>],
       CreateCommitCall \<lparr>gc_Message = ''Batch update via omnistorage'', gc_Tree = ''t1'',
                         gc_Parents = [''c0''], gc_Author = None\<rparr>,
       UpdateRefCall \<lparr>ref_Name = ''refs/heads/main'', ref_ObjectSHA = ''c1''\<rparr> False])"
    by code_simp
  moreover have "apply_entries Map.empty
     [\<lparr>te_Path = ''new.txt'', te_Mode = ''100644'', te_Type = ''blob'',
       te_SHA = Some ''blob-hello''\<rparr>] ''new.txt'' = Some ''blob-hello''"
    by (simp add: apply_entries_def apply_entry_def)
  moreover have "snd (snd (Commit client_present ex_backend []
     (ex_batch [write_op ''old.txt'' ''hello'', delete_op ''old.txt'',
                write_op ''old.txt'' ''again'']))) =
     [GetRefCall ''refs/heads/main'', GetCommitCall ''c0'',
      CreateBlobCall ''hello'' ''utf-8'', GetContentsCall ''old.txt'' ''main'',
      CreateBlobCall ''again'' ''utf-8'',
      CreateTreeCall ''t0''
        [\<lparr>te_Path = ''old.txt'', te_Mode = ''100644'', te_Type = ''blob'',
          te_SHA = Some ''blob-hello''\<rparr>,
         \<lparr>te_Path = ''old.txt'', te_Mode = ''100644'', te_Type = ''blob'', te_SHA = None\<rparr>,
         \<lparr>te_Path = ''old.txt'', te_Mode = ''100644'', te_Type = ''blob'',
          te_SHA = Some ''blob-again''\<rparr>],
      CreateCommitCall \<lparr>gc_Message = ''Batch update via omnistorage'', gc_Tree = ''t1'',
                        gc_Parents = [''c0''], gc_Author = None\<rparr>,
      UpdateRefCall \<lparr>ref_Name = ''refs/heads/main'', ref_ObjectSHA = ''c1''\<rparr> False]"
    by code_simp
  moreover have "apply_entries [''old.txt'' \<mapsto> ''f0'']
     [\<lparr>te_Path = ''old.txt'', te_Mode = ''100644'', te_Type = ''blob'',
       te_SHA = Some ''blob-hello''\<rparr>,
      \<lparr>te_Path = ''old.txt'', te_Mode = ''100644'', te_Type = ''blob'', te_SHA = None\<rparr>,
      \<lparr>te_Path = ''old.txt'', te_Mode = ''100644'', te_Type = ''blob'',
       te_SHA = Some ''blob-again''\<rparr>] ''old.txt'' = Some ''blob-again''"
    by (simp add: apply_entries_def apply_entry_def)
  ultimately show ?thesis by blast
qed

text \<open>
  The theorem of C1 at two batches that write and then delete a path. For \<open>old.txt\<close>, a
  file of the branch, the commit's tree omits it; for \<open>new.txt\<close>, which the branch does not
  have, the commit's tree contains it with the blob of the write.
\<close>

theorem Commit_write_then_delete_witness:
  "(\<exists>es newTree r4.
      CreateTree client_present ''t0'' es = (newTree, r4, None) \<and>
      CreateCommitCall \<lparr>gc_Message = ''Batch update via omnistorage'', gc_Tree = newTree,
                        gc_Parents = [''c0''], gc_Author = None\<rparr> \<in>
        set (snd (snd (Commit client_present ex_backend []
                   (ex_batch [write_op ''old.txt'' ''hello'', delete_op ''old.txt''])))) \<and>
      apply_entries [''old.txt'' \<mapsto> ''f0''] es ''old.txt'' = None) \<and>
   (\<exists>es newTree r4.
      CreateTree client_absent ''t0'' es = (newTree, r4, None) \<and>
      CreateCommitCall \<lparr>gc_Message = ''Batch update via omnistorage'', gc_Tree = newTree,
                        gc_Parents = [''c0''], gc_Author = None\<rparr> \<in>
        set (snd (snd (Commit client_absent ex_backend []
                   (ex_batch [write_op ''new.txt'' ''hello'', delete_op ''new.txt''])))) \<and>
      apply_entries Map.empty es ''new.txt'' = Some ''blob-hello'')"
proof -
  have cfg: "Branch (config ex_backend) = ''main''" "CommitAuthor (config ex_backend) = None"
    by (simp_all add: ex_backend_def ex_config_def)
  have msg: "message (ex_batch ops) = ''Batch update via omnistorage''" for ops
    by (simp add: ex_batch_def)
  have z: "\<forall>z\<in>set []. op_There z" for op_There :: "BatchOperation \<Rightarrow> bool"
    by simp
  have part: "\<exists>es newTree r4.
      CreateTree cl ''t0'' es = (newTree, r4, None) \<and>
      CreateCommitCall \<lparr>gc_Message = ''Batch update via omnistorage'', gc_Tree = newTree,
                        gc_Parents = [''c0''], gc_Author = None\<rparr> \<in>
        set (snd (snd (Commit cl ex_backend [] (ex_batch [write_op P ''hello'', delete_op P])))) \<and>
      (c_err (lookup P) = None \<longrightarrow> (\<forall>t. apply_entries t es P = None)) \<and>
      (c_err (lookup P) \<noteq> None \<longrightarrow> (\<forall>t. apply_entries t es P = Some ''blob-hello''))"
    if cl: "cl = ex_client lookup []"
      and ok: "fst (Commit cl ex_backend [] (ex_batch [write_op P ''hello'', delete_op P])) = None"
      and np: "normalizePath P = P"
    for cl lookup P
  proof -
    let ?batch = "ex_batch [write_op P ''hello'', delete_op P]"
    obtain batch' calls where c: "Commit cl ex_backend [] ?batch = (None, batch', calls)"
      using ok by (cases "Commit cl ex_backend [] ?batch") auto
    have ops: "operations ?batch = [] @ write_op P ''hello'' # [] @ delete_op P # []"
      by (simp add: ex_batch_def)
    have w: "op_Type (write_op P ''hello'') = BatchOpWrite" "op_Path (write_op P ''hello'') = P"
      by (simp_all add: write_op_def)
    have d: "op_Type (delete_op P) = BatchOpDelete" "op_Path (delete_op P) = P"
      by (simp_all add: delete_op_def)
    have r: "lookup P = GetContents cl (normalizePath P) (Branch (config ex_backend))"
      by (simp add: cl ex_client_def np)
    have blob: "fst (CreateBlob cl (op_Content (write_op P ''hello'')) ''utf-8'') = Some ''blob-hello''"
      by (simp add: cl ex_client_def write_op_def)
    obtain ref r1 baseTree r2 es cs newTree r4 newCommit r5 r6 where
      s1: "GetRef cl (''refs/heads/'' @ Branch (config ex_backend)) = (ref, r1, None)" and
      s2: "GetCommit cl (ref_ObjectSHA ref) = (baseTree, r2, None)" and
      s4: "CreateTree cl baseTree es = (newTree, r4, None)" and
      tr: "calls = [GetRefCall (''refs/heads/'' @ Branch (config ex_backend)),
                    GetCommitCall (ref_ObjectSHA ref)] @ cs @
                   [CreateTreeCall baseTree es,
                    CreateCommitCall \<lparr>gc_Message = message ?batch, gc_Tree = newTree,
                                      gc_Parents = [ref_ObjectSHA ref],
                                      gc_Author = CommitAuthor (config ex_backend)\<rparr>,
                    UpdateRefCall (ref\<lparr>ref_ObjectSHA := newCommit\<rparr>) False]" and
      a: "c_err (lookup P) = None \<longrightarrow> (\<forall>t. apply_entries t es P = None)" and
      b: "\<forall>sha. c_err (lookup P) \<noteq> None \<and>
                  (\<forall>y\<in>set ([]::BatchOperation list). op_Type y = BatchOpWrite \<longrightarrow> op_Path y \<noteq> P) \<and>
                  fst (CreateBlob cl (op_Content (write_op P ''hello'')) ''utf-8'') = Some sha \<longrightarrow>
                  (\<forall>t. apply_entries t es P = Some sha)"
    proof -
      from Commit_write_then_delete [OF c ops w d z r] show ?thesis
        by (elim exE conjE) (rule that)
    qed
    have sha: "ref_ObjectSHA ref = ''c0''" using s1 by (auto simp: cl ex_client_def)
    have base: "baseTree = ''t0''" using s2 by (auto simp: cl ex_client_def)
    have mem: "CreateCommitCall \<lparr>gc_Message = ''Batch update via omnistorage'', gc_Tree = newTree,
                        gc_Parents = [''c0''], gc_Author = None\<rparr> \<in> set calls"
      unfolding tr by (simp add: msg cfg sha)
    have b': "c_err (lookup P) \<noteq> None \<longrightarrow> (\<forall>t. apply_entries t es P = Some ''blob-hello'')"
      using b blob by simp
    show ?thesis
      using s4 [unfolded base] mem a b' c by (intro exI conjI) simp_all
  qed
  have n1: "normalizePath ''old.txt'' = ''old.txt''" by code_simp
  have n2: "normalizePath ''new.txt'' = ''new.txt''" by code_simp
  have ok1: "fst (Commit client_present ex_backend []
               (ex_batch [write_op ''old.txt'' ''hello'', delete_op ''old.txt''])) = None"
    by code_simp
  have ok2: "fst (Commit client_absent ex_backend []
               (ex_batch [write_op ''new.txt'' ''hello'', delete_op ''new.txt''])) = None"
    by code_simp
  have e1: "c_err (reply_file ''f0'') = None" by (simp add: reply_file_def)
  have e2: "c_err reply_not_found \<noteq> None" by (simp add: reply_not_found_def)
  from part [OF client_present_def ok1 n1] e1
  have p1: "\<exists>es newTree r4.
      CreateTree client_present ''t0'' es = (newTree, r4, None) \<and>
      CreateCommitCall \<lparr>gc_Message = ''Batch update via omnistorage'', gc_Tree = newTree,
                        gc_Parents = [''c0''], gc_Author = None\<rparr> \<in>
        set (snd (snd (Commit client_present ex_backend []
                   (ex_batch [write_op ''old.txt'' ''hello'', delete_op ''old.txt''])))) \<and>
      apply_entries [''old.txt'' \<mapsto> ''f0''] es ''old.txt'' = None"
    by auto
  from part [OF client_absent_def ok2 n2] e2
  have p2: "\<exists>es newTree r4.
      CreateTree client_absent ''t0'' es = (newTree, r4, None) \<and>
      CreateCommitCall \<lparr>gc_Message = ''Batch update via omnistorage'', gc_Tree = newTree,
                        gc_Parents = [''c0''], gc_Author = None\<rparr> \<in>
        set (snd (snd (Commit client_absent ex_backend []
                   (ex_batch [write_op ''new.txt'' ''hello'', delete_op ''new.txt''])))) \<and>
      apply_entries Map.empty es ''new.txt'' = Some ''blob-hello''"
    by auto
  from p1 p2 show ?thesis by (rule conjI)
qed

subsection \<open>\<open>normalizePath\<close> is idempotent\<close>

text \<open>
  First the byte loop of \<open>path.Clean\<close> is shown to compute the fold of \<^const>\<open>clean_step\<close>
  over the segments of its input; idempotence is then a fact about segment lists.
\<close>

lemma segments_Nil: "segments [] = [[]]"
  by (simp add: segments.simps)

lemma segments_slash: "segments (CHR ''/'' # rs) = [] # segments rs"
  by (simp add: segments.simps)

lemma takeWhile_noslash:
  "CHR ''/'' \<notin> set seg \<Longrightarrow>
     takeWhile (\<lambda>x. x \<noteq> CHR ''/'') (seg @ rest) = seg @ takeWhile (\<lambda>x. x \<noteq> CHR ''/'') rest"
  by (induction seg) auto

lemma dropWhile_noslash:
  "CHR ''/'' \<notin> set seg \<Longrightarrow>
     dropWhile (\<lambda>x. x \<noteq> CHR ''/'') (seg @ rest) = dropWhile (\<lambda>x. x \<noteq> CHR ''/'') rest"
  by (induction seg) auto

lemma segments_append:
  assumes "CHR ''/'' \<notin> set seg"
  shows "segments (seg @ CHR ''/'' # r) = seg # segments r"
proof -
  have "takeWhile (\<lambda>x. x \<noteq> CHR ''/'') (seg @ CHR ''/'' # r) = seg"
    using assms by (simp add: takeWhile_noslash)
  moreover have "dropWhile (\<lambda>x. x \<noteq> CHR ''/'') (seg @ CHR ''/'' # r) = CHR ''/'' # r"
    using assms by (simp add: dropWhile_noslash)
  ultimately show ?thesis by (subst segments.simps) simp
qed

lemma segments_single:
  assumes "CHR ''/'' \<notin> set seg"
  shows "segments seg = [seg]"
proof -
  have tw: "takeWhile (\<lambda>x. x \<noteq> CHR ''/'') seg = seg"
    using takeWhile_noslash [OF assms, of "[]"] by simp
  have dw: "dropWhile (\<lambda>x. x \<noteq> CHR ''/'') seg = []"
    using dropWhile_noslash [OF assms, of "[]"] by simp
  show ?thesis by (subst segments.simps) (simp only: tw dw list.case)
qed

lemma step_empty: "clean_step rooted st [] = st"
  by (simp add: clean_step_def)

lemma foldl_step_segments:
  assumes "CHR ''/'' \<notin> set seg" and "rest = [] \<or> hd rest = CHR ''/''"
  shows "foldl (clean_step rooted) st (segments (seg @ rest)) = foldl (clean_step rooted) (clean_step rooted st seg) (segments rest)"
proof (cases rest)
  case Nil
  then show ?thesis using assms by (simp add: segments_single segments_Nil step_empty)
next
  case (Cons c r)
  then have "c = CHR ''/''" using assms(2) by simp
  then show ?thesis using Cons assms(1) by (simp add: segments_append segments_slash step_empty)
qed

lemma segments_no_slash: "seg \<in> set (segments s) \<Longrightarrow> CHR ''/'' \<notin> set seg"
proof (induction s arbitrary: seg rule: segments.induct)
  case (1 s)
  show ?case
  proof (cases "dropWhile (\<lambda>x. x \<noteq> CHR ''/'') s")
    case Nil
    then have "segments s = [takeWhile (\<lambda>x. x \<noteq> CHR ''/'') s]"
      by (subst segments.simps) (simp only: list.case)
    with "1.prems" have "seg = takeWhile (\<lambda>x. x \<noteq> CHR ''/'') s" by simp
    then show ?thesis using set_takeWhileD by fastforce
  next
    case (Cons c r)
    then have "segments s = takeWhile (\<lambda>x. x \<noteq> CHR ''/'') s # segments r"
      by (subst segments.simps) (simp only: list.case)
    with "1.prems" have "seg = takeWhile (\<lambda>x. x \<noteq> CHR ''/'') s \<or> seg \<in> set (segments r)" by simp
    then show ?thesis
    proof
      assume "seg = takeWhile (\<lambda>x. x \<noteq> CHR ''/'') s"
      then show ?thesis using set_takeWhileD by fastforce
    next
      assume "seg \<in> set (segments r)"
      with "1.IH" [OF Cons] show ?thesis by simp
    qed
  qed
qed

lemma join_snoc: "join_segments (L @ [s]) = (if L = [] then s else join_segments L @ ''/'' @ s)"
  by (induction L rule: join_segments.induct) auto

lemma join_append:
  "join_segments (A @ B) = (if A = [] then join_segments B else if B = [] then join_segments A else join_segments A @ ''/'' @ join_segments B)"
  by (induction A rule: join_segments.induct) (auto simp: neq_Nil_conv)

lemma join_eq_Nil: "\<forall>x\<in>set L. x \<noteq> [] \<Longrightarrow> join_segments L = [] \<longleftrightarrow> L = []"
  by (induction L rule: join_segments.induct) auto

lemma is_name_nonempty: "is_name n \<Longrightarrow> n \<noteq> []"
  by (simp add: is_name_def)

lemma state_nonempty:
  "\<forall>n\<in>set ns. is_name n \<Longrightarrow> \<forall>x\<in>set (replicate k ''..'' @ ns). x \<noteq> []"
  by (auto dest: is_name_nonempty)

lemma render_length_le:
  "length (clean_render rooted (k, [])) \<le> length (clean_render rooted (k, ns))"
  by (simp add: clean_render_def join_append)

lemma render_length_less:
  assumes "\<forall>n\<in>set ns. is_name n"
  shows "length (clean_render rooted (k, [])) < length (clean_render rooted (k, ns)) \<longleftrightarrow> ns \<noteq> []"
proof (cases "ns = []")
  case True
  then show ?thesis by simp
next
  case False
  then have "join_segments ns \<noteq> []" using assms join_eq_Nil [of ns] by (auto simp: is_name_def)
  then show ?thesis using False by (simp add: clean_render_def join_append)
qed

lemma render_snoc:
  assumes "\<forall>n\<in>set ns. is_name n" and "rooted \<longrightarrow> k = 0"
  shows "clean_render rooted (k, ns @ [seg]) =
           (if rooted \<and> length (clean_render rooted (k, ns)) \<noteq> 1 \<or>
               \<not> rooted \<and> length (clean_render rooted (k, ns)) \<noteq> 0
            then clean_render rooted (k, ns) @ ''/'' else clean_render rooted (k, ns)) @ seg"
proof -
  have ne: "\<forall>x\<in>set (replicate k ''..'' @ ns). x \<noteq> []"
    using assms(1) by (rule state_nonempty)
  have e: "join_segments (replicate k ''..'' @ ns) = [] \<longleftrightarrow> replicate k ''..'' @ ns = []"
    using ne by (rule join_eq_Nil)
  have "clean_render rooted (k, ns @ [seg]) =
          (if rooted then ''/'' else []) @ join_segments ((replicate k ''..'' @ ns) @ [seg])"
    by (simp add: clean_render_def)
  also have "\<dots> = (if rooted then ''/'' else []) @
                   (if replicate k ''..'' @ ns = [] then seg
                    else join_segments (replicate k ''..'' @ ns) @ ''/'' @ seg)"
    by (simp only: join_snoc)
  finally show ?thesis using e by (auto simp: clean_render_def)
qed

lemma render_dotdot:
  "clean_render False (Suc k, []) =
     (if length (clean_render False (k, [])) > 0 then clean_render False (k, []) @ ''/''
      else clean_render False (k, [])) @ ''..''"
proof -
  have ne: "\<forall>x\<in>set (replicate k ''..''). x \<noteq> []" by simp
  have e: "join_segments (replicate k ''..'') = [] \<longleftrightarrow> replicate k ''..'' = []"
    using ne by (rule join_eq_Nil)
  have "replicate (Suc k) ''..'' = replicate k ''..'' @ [''..'']"
    by (simp add: replicate_append_same)
  then have "join_segments (replicate (Suc k) ''..'') =
               (if replicate k ''..'' = [] then ''..'' else join_segments (replicate k ''..'') @ ''/'' @ ''..'')"
    by (simp only: join_snoc)
  then show ?thesis using e by (auto simp: clean_render_def)
qed

lemma backtrack_loop_stop:
  assumes "dd \<le> m" and "m \<le> w"
    and "\<forall>i. m < i \<and> i \<le> w \<longrightarrow> out ! i \<noteq> CHR ''/''"
    and "m = dd \<or> out ! m = CHR ''/''"
  shows "backtrack_loop out dd w = m"
  using assms(2,3)
proof (induction w)
  case 0
  then show ?case by simp
next
  case (Suc w)
  show ?case
  proof (cases "m = Suc w")
    case True
    then show ?thesis using assms(4) by auto
  next
    case False
    then have le: "m \<le> w" using Suc.prems(1) by simp
    then have "Suc w > dd" using assms(1) by simp
    moreover have "out ! (Suc w) \<noteq> CHR ''/''" using Suc.prems(2) le by simp
    moreover have "backtrack_loop out dd w = m" using Suc.IH le Suc.prems(2) by simp
    ultimately show ?thesis by simp
  qed
qed

lemma backtrack_sep:
  assumes "CHR ''/'' \<notin> set n" and "n \<noteq> []" and "dd \<le> length P"
  shows "backtrack (P @ ''/'' @ n) dd = P"
proof -
  let ?out = "P @ ''/'' @ n"
  have nth: "?out ! i \<noteq> CHR ''/''" if "length P < i" "i \<le> length ?out - 1" for i
  proof -
    have "?out ! i = n ! (i - length P - 1)"
      using that by (simp add: nth_append)
    moreover have "i - length P - 1 < length n" using that assms(2) by (cases n) auto
    ultimately show ?thesis using assms(1) by (metis nth_mem)
  qed
  have "backtrack_loop ?out dd (length ?out - 1) = length P"
  proof (rule backtrack_loop_stop)
    show "dd \<le> length P" by (rule assms(3))
    show "length P \<le> length ?out - 1" by simp
    show "\<forall>i. length P < i \<and> i \<le> length ?out - 1 \<longrightarrow> ?out ! i \<noteq> CHR ''/''"
      using nth by blast
    show "length P = dd \<or> ?out ! length P = CHR ''/''" by (simp add: nth_append)
  qed
  then show ?thesis by (simp add: backtrack_def)
qed

lemma backtrack_nosep:
  assumes "CHR ''/'' \<notin> set n" and "n \<noteq> []"
  shows "backtrack (P @ n) (length P) = P"
proof -
  let ?out = "P @ n"
  have nth: "?out ! i \<noteq> CHR ''/''" if "length P < i" "i \<le> length ?out - 1" for i
  proof -
    have "?out ! i = n ! (i - length P)"
      using that by (simp add: nth_append)
    moreover have "i - length P < length n" using that assms(2) by (cases n) auto
    ultimately show ?thesis using assms(1) by (metis nth_mem)
  qed
  have "backtrack_loop ?out (length P) (length ?out - 1) = length P"
  proof (rule backtrack_loop_stop)
    show "length P \<le> length P" by simp
    show "length P \<le> length ?out - 1" using assms(2) by (cases n) auto
    show "\<forall>i. length P < i \<and> i \<le> length ?out - 1 \<longrightarrow> ?out ! i \<noteq> CHR ''/''"
      using nth by blast
    show "length P = length P \<or> ?out ! length P = CHR ''/''" by simp
  qed
  then show ?thesis by (simp add: backtrack_def)
qed

lemma backtrack_render:
  assumes "\<forall>n\<in>set ns. is_name n" and "rooted \<longrightarrow> k = 0" and "ns \<noteq> []"
  shows "backtrack (clean_render rooted (k, ns)) (length (clean_render rooted (k, []))) =
           clean_render rooted (k, butlast ns)"
proof -
  let ?P = "clean_render rooted (k, butlast ns)"
  let ?n = "last ns"
  have names: "\<forall>n\<in>set (butlast ns). is_name n"
    using assms(1) by (auto dest: in_set_butlastD)
  have n: "CHR ''/'' \<notin> set ?n" "?n \<noteq> []"
    using assms(1,3) by (auto simp: is_name_def)
  have split: "ns = butlast ns @ [?n]" using assms(3) by simp
  have r: "clean_render rooted (k, ns) =
             (if rooted \<and> length ?P \<noteq> 1 \<or> \<not> rooted \<and> length ?P \<noteq> 0
              then ?P @ ''/'' else ?P) @ ?n"
    using render_snoc [OF names assms(2), of ?n] split by simp
  show ?thesis
  proof (cases "rooted \<and> length ?P \<noteq> 1 \<or> \<not> rooted \<and> length ?P \<noteq> 0")
    case True
    then have "clean_render rooted (k, ns) = ?P @ ''/'' @ ?n" using r by simp
    moreover have "length (clean_render rooted (k, [])) \<le> length ?P" by (rule render_length_le)
    ultimately show ?thesis using backtrack_sep [OF n] by simp
  next
    case False
    then have eq: "clean_render rooted (k, ns) = ?P @ ?n" using r by simp
    have "length (clean_render rooted (k, [])) = length ?P"
    proof (cases rooted)
      case True
      then have "length ?P = 1" using False by simp
      moreover have "length (clean_render rooted (k, [])) = 1" using True assms(2) by (simp add: clean_render_def)
      ultimately show ?thesis by simp
    next
      case False
      then have "length ?P = 0" using \<open>\<not> (rooted \<and> length ?P \<noteq> 1 \<or> \<not> rooted \<and> length ?P \<noteq> 0)\<close> by simp
      then show ?thesis using render_length_le [of rooted k "butlast ns"] by simp
    qed
    then show ?thesis using backtrack_nosep [OF n, of ?P] eq by simp
  qed
qed

lemma is_dot_elem_Cons:
  "is_dot_elem (c # rs) \<longleftrightarrow> c = CHR ''.'' \<and> (rs = [] \<or> hd rs = CHR ''/'')"
  by (cases rs) (simp_all add: is_dot_elem_def)

lemma is_dotdot_elem_Cons:
  "is_dotdot_elem (c # rs) \<longleftrightarrow>
     c = CHR ''.'' \<and> rs \<noteq> [] \<and> hd rs = CHR ''.'' \<and> (tl rs = [] \<or> hd (tl rs) = CHR ''/'')"
proof (cases rs)
  case Nil
  then show ?thesis by (simp add: is_dotdot_elem_def)
next
  case (Cons d rs')
  then show ?thesis by (cases rs') (simp_all add: is_dotdot_elem_def)
qed

lemma takeWhile_Nil_hd: "takeWhile P xs = [] \<longleftrightarrow> xs = [] \<or> \<not> P (hd xs)"
  by (cases xs) auto

lemma name_segment:
  assumes "c \<noteq> CHR ''/''" and "\<not> is_dot_elem (c # rs)" and "\<not> is_dotdot_elem (c # rs)"
  shows "is_name (takeWhile (\<lambda>x. x \<noteq> CHR ''/'') (c # rs))"
proof -
  let ?P = "\<lambda>x. x \<noteq> CHR ''/''"
  have seg: "takeWhile ?P (c # rs) = c # takeWhile ?P rs" using assms(1) by simp
  have ne: "takeWhile ?P (c # rs) \<noteq> []" unfolding seg by simp
  have "CHR ''/'' \<notin> set (takeWhile ?P (c # rs))"
    using set_takeWhileD by fastforce
  moreover have "takeWhile ?P (c # rs) \<noteq> ''.''"
  proof
    assume a: "takeWhile ?P (c # rs) = ''.''"
    from a [unfolded seg] have "c = CHR ''.''" "takeWhile ?P rs = []" by simp_all
    then have "is_dot_elem (c # rs)"
      by (simp add: is_dot_elem_Cons takeWhile_Nil_hd)
    with assms(2) show False by simp
  qed
  moreover have "takeWhile ?P (c # rs) \<noteq> ''..''"
  proof
    assume a: "takeWhile ?P (c # rs) = ''..''"
    from a [unfolded seg] have c: "c = CHR ''.''" and t: "takeWhile ?P rs = ''.''" by simp_all
    from t obtain d rs' where rs: "rs = d # rs'" by (cases rs) auto
    with t have "d = CHR ''.''" "takeWhile ?P rs' = []" by (auto split: if_splits)
    then have "is_dotdot_elem (c # rs)"
      using c rs by (simp add: is_dotdot_elem_Cons takeWhile_Nil_hd)
    with assms(3) show False by simp
  qed
  ultimately show ?thesis unfolding is_name_def using ne by blast
qed

lemma dropWhile_rest: "dropWhile (\<lambda>x. x \<noteq> CHR ''/'') xs = [] \<or> hd (dropWhile (\<lambda>x. x \<noteq> CHR ''/'') xs) = CHR ''/''"
  using hd_dropWhile [of "\<lambda>x. x \<noteq> CHR ''/''" xs] by auto

lemma step_dot: "clean_step rooted st ''.'' = st"
  by (simp add: clean_step_def)

lemma step_name: "is_name seg \<Longrightarrow> clean_step rooted (k, ns) seg = (k, ns @ [seg])"
  by (auto simp: clean_step_def is_name_def)

lemma step_dotdot:
  "clean_step rooted (k, ns) ''..'' =
     (if ns \<noteq> [] then (k, butlast ns) else if \<not> rooted then (Suc k, []) else (k, ns))"
  by (simp add: clean_step_def)

lemma clean_loop_sim:
  assumes "\<forall>n\<in>set ns. is_name n" and "rooted \<longrightarrow> k = 0"
  shows "clean_loop rooted rest (clean_render rooted (k, ns)) (length (clean_render rooted (k, []))) =
           clean_render rooted (foldl (clean_step rooted) (k, ns) (segments rest))"
  using assms
proof (induction rest arbitrary: k ns rule: length_induct)
  case (1 rest)
  have IH: "clean_loop rooted ys (clean_render rooted (k', ns')) (length (clean_render rooted (k', []))) =
              clean_render rooted (foldl (clean_step rooted) (k', ns') (segments ys))"
    if "length ys < length rest" "\<forall>n\<in>set ns'. is_name n" "rooted \<longrightarrow> k' = 0" for ys k' ns'
    using "1.IH" that by blast
  note names = "1.prems"(1)
  note root = "1.prems"(2)
  let ?out = "clean_render rooted (k, ns)"
  let ?dd = "length (clean_render rooted (k, []))"
  show ?case
  proof (cases rest)
    case Nil
    then show ?thesis by (simp add: segments_Nil step_empty)
  next
    case (Cons c rs)
    show ?thesis
    proof (cases "c = CHR ''/''")
      case True
      have "clean_loop rooted rest ?out ?dd = clean_loop rooted rs ?out ?dd"
        using Cons True by simp
      also have "\<dots> = clean_render rooted (foldl (clean_step rooted) (k, ns) (segments rs))"
        using IH [where ys = rs and k' = k and ns' = ns] Cons names root by simp
      also have "\<dots> = clean_render rooted (foldl (clean_step rooted) (k, ns) (segments rest))"
        using Cons True by (simp add: segments_slash step_empty)
      finally show ?thesis .
    next
      case noslash: False
      show ?thesis
      proof (cases "is_dot_elem (c # rs)")
        case True
        then have c: "c = CHR ''.''" and rs: "rs = [] \<or> hd rs = CHR ''/''"
          by (simp_all add: is_dot_elem_Cons)
        have "clean_loop rooted rest ?out ?dd = clean_loop rooted rs ?out ?dd"
          using Cons noslash True by simp
        also have "\<dots> = clean_render rooted (foldl (clean_step rooted) (k, ns) (segments rs))"
          using IH [where ys = rs and k' = k and ns' = ns] Cons names root by simp
        also have "\<dots> = clean_render rooted (foldl (clean_step rooted) (k, ns) (segments (''.'' @ rs)))"
          using foldl_step_segments [of "''.''" rs rooted "(k, ns)"] rs by (simp add: step_dot)
        finally show ?thesis using Cons c by simp
      next
        case nodot: False
        show ?thesis
        proof (cases "is_dotdot_elem (c # rs)")
          case True
          then obtain rs' where c: "c = CHR ''.''" and rs: "rs = CHR ''.'' # rs'"
            and rs': "rs' = [] \<or> hd rs' = CHR ''/''"
            by (cases rs) (auto simp: is_dotdot_elem_Cons)
          have rest: "rest = ''..'' @ rs'" using Cons c rs by simp
          have fold: "foldl (clean_step rooted) (k, ns) (segments rest) =
                        foldl (clean_step rooted) (clean_step rooted (k, ns) ''..'') (segments rs')"
            unfolding rest using rs' by (intro foldl_step_segments) simp_all
          have len: "length rs' < length rest" using rest by simp
          show ?thesis
          proof (cases "ns \<noteq> []")
            case True
            then have gt: "length ?out > ?dd" using render_length_less [OF names] by simp
            have names': "\<forall>n\<in>set (butlast ns). is_name n"
              using names by (auto dest: in_set_butlastD)
            have "clean_loop rooted rest ?out ?dd =
                    clean_loop rooted rs' (backtrack ?out ?dd) ?dd"
              using Cons noslash nodot \<open>is_dotdot_elem (c # rs)\<close> gt rs by simp
            also have "\<dots> = clean_loop rooted rs' (clean_render rooted (k, butlast ns)) ?dd"
              using backtrack_render [OF names root True] by simp
            also have "\<dots> = clean_render rooted (foldl (clean_step rooted) (k, butlast ns) (segments rs'))"
              using IH [OF len names' root] .
            finally show ?thesis using fold True by (simp add: step_dotdot)
          next
            case False
            then have ns: "ns = []" by simp
            then have nogt: "\<not> length ?out > ?dd" by simp
            show ?thesis
            proof (cases rooted)
              case True
              have "clean_loop rooted rest ?out ?dd = clean_loop rooted rs' ?out ?dd"
                using Cons noslash nodot \<open>is_dotdot_elem (c # rs)\<close> nogt rs True by simp
              also have "\<dots> = clean_render rooted (foldl (clean_step rooted) (k, ns) (segments rs'))"
                using IH [OF len names root] .
              finally show ?thesis using fold ns True by (simp add: step_dotdot)
            next
              case False
              let ?out' = "clean_render False (Suc k, [])"
              have "clean_loop rooted rest ?out ?dd =
                      clean_loop rooted rs' ?out' (length ?out')"
                using Cons noslash nodot \<open>is_dotdot_elem (c # rs)\<close> nogt rs False ns
                  render_dotdot [of k]
                by (simp add: Let_def)
              also have "\<dots> = clean_render rooted (foldl (clean_step rooted) (Suc k, []) (segments rs'))"
                using IH [where ys = rs' and k' = "Suc k" and ns' = "[]"] len False by simp
              finally show ?thesis using fold ns False by (simp add: step_dotdot)
            qed
          qed
        next
          case nodotdot: False
          let ?P = "\<lambda>x. x \<noteq> CHR ''/''"
          let ?seg = "takeWhile ?P (c # rs)"
          let ?rest' = "dropWhile ?P (c # rs)"
          have nm: "is_name ?seg" using noslash nodot nodotdot by (rule name_segment)
          have split: "rest = ?seg @ ?rest'" using Cons by simp
          have nosl: "CHR ''/'' \<notin> set ?seg" using nm by (simp add: is_name_def)
          have fold: "foldl (clean_step rooted) (k, ns) (segments rest) =
                        foldl (clean_step rooted) (k, ns @ [?seg]) (segments ?rest')"
          proof -
            have "foldl (clean_step rooted) (k, ns) (segments (?seg @ ?rest')) =
                    foldl (clean_step rooted) (clean_step rooted (k, ns) ?seg) (segments ?rest')"
              using nosl dropWhile_rest [of "c # rs"] by (rule foldl_step_segments)
            then show ?thesis
              by (simp only: split [symmetric] step_name [OF nm])
          qed
          have len: "length ?rest' < length rest"
            using Cons noslash length_dropWhile_le [of ?P rs] by simp
          have names': "\<forall>n\<in>set (ns @ [?seg]). is_name n" using names nm by simp
          have "clean_loop rooted rest ?out ?dd =
                  clean_loop rooted ?rest' (clean_render rooted (k, ns @ [?seg])) ?dd"
            using Cons noslash nodot nodotdot render_snoc [OF names root, of ?seg]
            by (simp add: Let_def)
          also have "\<dots> = clean_render rooted (foldl (clean_step rooted) (k, ns @ [?seg]) (segments ?rest'))"
            using IH [OF len names' root] .
          finally show ?thesis using fold by simp
        qed
      qed
    qed
  qed
qed

lemma step_inv:
  assumes "clean_inv rooted st" and "CHR ''/'' \<notin> set seg"
  shows "clean_inv rooted (clean_step rooted st seg)"
proof -
  have "is_name seg" if "seg \<noteq> []" "seg \<noteq> ''.''" "seg \<noteq> ''..''"
    using that assms(2) unfolding is_name_def by blast
  then show ?thesis
    using assms(1) unfolding clean_inv_def clean_step_def
    by (auto dest: in_set_butlastD)
qed

lemma foldl_step_inv:
  assumes "clean_inv rooted st" and "\<forall>seg\<in>set L. CHR ''/'' \<notin> set seg"
  shows "clean_inv rooted (foldl (clean_step rooted) st L)"
  using assms by (induction L arbitrary: st) (simp_all add: step_inv)

lemma segments_inv: "clean_inv rooted st \<Longrightarrow> clean_inv rooted (foldl (clean_step rooted) st (segments s))"
  using foldl_step_inv segments_no_slash by blast

lemma foldl_step_dotdots: "foldl (clean_step False) (j, []) (replicate k ''..'') = (j + k, [])"
  by (induction k arbitrary: j) (simp_all add: step_dotdot)

lemma foldl_step_names:
  "\<forall>n\<in>set ns. is_name n \<Longrightarrow> foldl (clean_step rooted) (k, ms) ns = (k, ms @ ns)"
  by (induction ns arbitrary: ms) (simp_all add: step_name)

lemma foldl_step_canonical:
  "\<forall>n\<in>set ns. is_name n \<Longrightarrow> foldl (clean_step False) (0, []) (replicate k ''..'' @ ns) = (k, ns)"
  using foldl_step_dotdots [of 0 k] foldl_step_names [of ns False k "[]"] by simp

lemma segments_join:
  assumes "L \<noteq> []" and "\<forall>x\<in>set L. CHR ''/'' \<notin> set x"
  shows "segments (join_segments L) = L"
  using assms
proof (induction L rule: join_segments.induct)
  case 1
  then show ?case by simp
next
  case (2 s)
  then show ?case by (simp add: segments_single)
next
  case (3 s t ts)
  then have "segments (join_segments (t # ts)) = t # ts" by simp
  moreover have "segments (s @ CHR ''/'' # join_segments (t # ts)) = s # segments (join_segments (t # ts))"
    using 3(3) by (intro segments_append) simp
  ultimately show ?case by simp
qed

lemma seg_facts:
  assumes "\<forall>n\<in>set ns. is_name n" and "x \<in> set (replicate k ''..'' @ ns)"
  shows "CHR ''/'' \<notin> set x" and "x \<noteq> []" and "x \<noteq> ''.''"
proof -
  from assms(2) have "x = ''..'' \<or> x \<in> set ns" by auto
  then show "CHR ''/'' \<notin> set x"
  proof
    assume "x = ''..''" then show ?thesis by simp
  next
    assume "x \<in> set ns" with assms(1) show ?thesis by (simp add: is_name_def)
  qed
  from \<open>x = ''..'' \<or> x \<in> set ns\<close> show "x \<noteq> []"
  proof
    assume "x = ''..''" then show ?thesis by simp
  next
    assume "x \<in> set ns" with assms(1) show ?thesis by (simp add: is_name_def)
  qed
  from \<open>x = ''..'' \<or> x \<in> set ns\<close> show "x \<noteq> ''.''"
  proof
    assume "x = ''..''" then show ?thesis by simp
  next
    assume "x \<in> set ns" with assms(1) show ?thesis by (simp add: is_name_def)
  qed
qed

lemma join_hd:
  assumes "L \<noteq> []" and "hd L \<noteq> []"
  shows "join_segments L \<noteq> []" and "hd (join_segments L) = hd (hd L)"
  using assms by (induction L rule: join_segments.induct) auto

lemma canonical_facts:
  assumes "canonical q"
  shows "q \<noteq> []" and "hd q \<noteq> CHR ''/''" and "q \<noteq> ''.''" and "Clean q = q"
proof -
  from assms obtain k ns where names: "\<forall>n\<in>set ns. is_name n"
    and ne: "replicate k ''..'' @ ns \<noteq> []" and q: "q = join_segments (replicate k ''..'' @ ns)"
    unfolding canonical_def by blast
  let ?L = "replicate k ''..'' @ ns"
  have hdL: "hd ?L \<in> set ?L" using ne by (rule hd_in_set)
  have h1: "hd ?L \<noteq> []" using seg_facts(2) [OF names hdL] .
  have h2: "CHR ''/'' \<notin> set (hd ?L)" using seg_facts(1) [OF names hdL] .
  show q1: "q \<noteq> []" using join_hd(1) [OF ne h1] q by simp
  have "hd q = hd (hd ?L)" using join_hd(2) [OF ne h1] q by simp
  moreover have "hd (hd ?L) \<in> set (hd ?L)" using h1 by (rule hd_in_set)
  ultimately show q2: "hd q \<noteq> CHR ''/''" using h2 by metis
  have noslash: "\<forall>x\<in>set ?L. CHR ''/'' \<notin> set x" using seg_facts(1) [OF names] by blast
  have sj: "segments q = ?L" unfolding q using ne noslash by (rule segments_join)
  show "q \<noteq> ''.''"
  proof
    assume "q = ''.''"
    then have "segments q = [''.'']" by (simp add: segments_single)
    then have "''.'' \<in> set (segments q)" by simp
    then have "''.'' \<in> set ?L" by (simp only: sj)
    with seg_facts(3) [OF names] show False by blast
  qed
  have "clean_loop False q (clean_render False (0, [])) (length (clean_render False (0, []))) =
          clean_render False (foldl (clean_step False) (0, []) (segments q))"
    by (rule clean_loop_sim) simp_all
  then have "clean_loop False q [] 0 = clean_render False (k, ns)"
    using sj foldl_step_canonical [OF names, of k] by (simp add: clean_render_def)
  then have "clean_loop False q [] 0 = q" using q by (simp add: clean_render_def)
  then show "Clean q = q" using q1 q2 by (simp add: Clean_def)
qed

lemma HasPrefix_slash: "HasPrefix s ''/'' \<longleftrightarrow> s \<noteq> [] \<and> hd s = CHR ''/''"
  by (cases s) auto

lemma normalizePath_canonical:
  assumes "canonical q"
  shows "normalizePath q = q"
  using canonical_facts [OF assms]
  by (simp add: normalizePath_def TrimPrefix_def HasPrefix_slash Let_def)

lemma normalizePath_form: "normalizePath p = [] \<or> canonical (normalizePath p)"
proof (cases "p = []")
  case True
  then show ?thesis by (simp add: normalizePath_def)
next
  case False
  show ?thesis
  proof (cases "hd p = CHR ''/''")
    case True
    let ?st = "foldl (clean_step True) (0, []) (segments (tl p))"
    have i: "clean_inv True ?st" by (rule segments_inv) (simp add: clean_inv_def)
    obtain k ns where st: "?st = (k, ns)" by (cases ?st)
    with i have k: "k = 0" and names: "\<forall>n\<in>set ns. is_name n" by (simp_all add: clean_inv_def)
    have "clean_loop True (tl p) (clean_render True (0, [])) (length (clean_render True (0, []))) =
            clean_render True ?st"
      by (rule clean_loop_sim) simp_all
    then have "clean_loop True (tl p) ''/'' 1 = ''/'' @ join_segments ns"
      using st k by (simp add: clean_render_def)
    then have c: "Clean p = ''/'' @ join_segments ns" using False True by (simp add: Clean_def)
    then have t: "TrimPrefix (Clean p) ''/'' = join_segments ns" by (simp add: TrimPrefix_def)
    show ?thesis
    proof (cases "ns = []")
      case True
      then show ?thesis using t False by (simp add: normalizePath_def)
    next
      case ne: False
      have can: "canonical (join_segments ns)"
        unfolding canonical_def using names ne by (intro exI [of _ 0] exI [of _ ns]) simp
      then have "join_segments ns \<noteq> ''.''" by (rule canonical_facts(3))
      then have "normalizePath p = join_segments ns" using t False by (simp add: normalizePath_def)
      with can show ?thesis by simp
    qed
  next
    case notrooted: False
    let ?st = "foldl (clean_step False) (0, []) (segments p)"
    have i: "clean_inv False ?st" by (rule segments_inv) (simp add: clean_inv_def)
    obtain k ns where st: "?st = (k, ns)" by (cases ?st)
    with i have names: "\<forall>n\<in>set ns. is_name n" by (simp add: clean_inv_def)
    let ?L = "replicate k ''..'' @ ns"
    have "clean_loop False p (clean_render False (0, [])) (length (clean_render False (0, []))) =
            clean_render False ?st"
      by (rule clean_loop_sim) simp_all
    then have cl: "clean_loop False p [] 0 = join_segments ?L"
      using st by (simp add: clean_render_def)
    show ?thesis
    proof (cases "?L = []")
      case True
      then have "clean_loop False p [] 0 = []" using cl by simp
      then have "Clean p = ''.''" using False notrooted by (simp add: Clean_def)
      then show ?thesis using False by (simp add: normalizePath_def TrimPrefix_def)
    next
      case ne: False
      have can: "canonical (join_segments ?L)"
        unfolding canonical_def using names ne by blast
      note f = canonical_facts [OF can]
      have "Clean p = join_segments ?L" using cl f(1) False notrooted by (simp add: Clean_def)
      then have "normalizePath p = join_segments ?L"
        using f False by (simp add: normalizePath_def TrimPrefix_def HasPrefix_slash Let_def)
      with can show ?thesis by simp
    qed
  qed
qed

text \<open>
  Claim C7. \<open>normalizePath\<close> is idempotent on every string, and it maps the empty string,
  \<open>.\<close> and \<open>/\<close> to the empty string, the repository root.
\<close>

theorem normalizePath_idempotent:
  "normalizePath (normalizePath p) = normalizePath p \<and>
   normalizePath [] = [] \<and> normalizePath ''.'' = [] \<and> normalizePath ''/'' = []"
proof -
  have e: "normalizePath [] = []" by (simp add: normalizePath_def)
  have "normalizePath (normalizePath p) = normalizePath p"
  proof (cases "normalizePath p = []")
    case True
    then show ?thesis using e by simp
  next
    case False
    then have "canonical (normalizePath p)" using normalizePath_form [of p] by simp
    then show ?thesis by (rule normalizePath_canonical)
  qed
  moreover note e
  moreover have "normalizePath ''.'' = []" by code_simp
  moreover have "normalizePath ''/'' = []" by code_simp
  ultimately show ?thesis by simp
qed

end
